theory Spec2Isabelle
  imports Main "HOL-Library.Word" "HOL-Library.Sublist"
begin

unbundle bit_operations_syntax

section \<open>JavaScript values the streams compute with\<close>

text \<open>
  The library reads a Node \<open>Buffer\<close>: a fixed-length array of bytes. Its positions,
  lengths and the integers it returns are JavaScript numbers; the model takes the
  integer-valued ones as \<open>int\<close> (no number of the library leaves the range where
  doubles are exact for a buffer that fits in memory).

  \<^item> \<open>buffer[i]\<close> yields the byte at \<open>i\<close>, or \<open>undefined\<close> when \<open>i\<close> is outside
    the buffer. A \<open>jsnum\<close> is such a value: \<open>Some n\<close> is the number \<open>n\<close>, \<open>None\<close>
    is \<open>undefined\<close> (which arithmetic turns into \<open>NaN\<close>, so \<open>None\<close> also stands
    for \<open>NaN\<close>).
  \<^item> \<open>buffer[i] = v\<close> stores \<open>v\<close> reduced to a byte (0 for \<open>undefined\<close>) and does
    nothing when \<open>i\<close> is outside the buffer.
  \<^item> \<open>x << k\<close> converts \<open>x\<close> to a signed 32-bit integer (\<open>NaN\<close> to 0), shifts, and
    keeps the low 32 bits as a signed value; \<open>x & m\<close> converts likewise.
  \<^item> \<open>x + y\<close> on numbers is addition, \<open>NaN\<close> as soon as one side is
    \<open>undefined\<close> or \<open>NaN\<close>.
  \<^item> a JavaScript string is a sequence of 16-bit code units;
    \<open>String.fromCharCode(v)\<close> is the code unit \<open>v mod 65536\<close> (0 for \<open>undefined\<close>).
\<close>

type_synonym byte = "8 word"
type_synonym jsnum = "int option"
type_synonym jsstring = "16 word list"

definition buffer_at :: "byte list \<Rightarrow> int \<Rightarrow> jsnum" where
  "buffer_at buf i = (if 0 \<le> i \<and> i < int (length buf) then Some (uint (buf ! nat i)) else None)"

definition buffer_put :: "byte list \<Rightarrow> int \<Rightarrow> jsnum \<Rightarrow> byte list" where
  "buffer_put buf i v =
     (if 0 \<le> i \<and> i < int (length buf)
      then buf[nat i := (case v of None \<Rightarrow> 0 | Some n \<Rightarrow> word_of_int n)]
      else buf)"

definition ToInt32 :: "int \<Rightarrow> int" where
  "ToInt32 x = (x + 2147483648) mod 4294967296 - 2147483648"

definition js_int32 :: "jsnum \<Rightarrow> int" where
  "js_int32 v = (case v of None \<Rightarrow> 0 | Some x \<Rightarrow> ToInt32 x)"

definition js_shl :: "jsnum \<Rightarrow> nat \<Rightarrow> jsnum" where
  "js_shl v k = Some (ToInt32 (js_int32 v * 2 ^ k))"

definition js_and :: "jsnum \<Rightarrow> int \<Rightarrow> jsnum" where
  "js_and v m = Some (js_int32 v AND ToInt32 m)"

definition js_add :: "jsnum \<Rightarrow> jsnum \<Rightarrow> jsnum" where
  "js_add v w = (case (v, w) of (Some x, Some y) \<Rightarrow> Some (x + y) | _ \<Rightarrow> None)"

definition fromCharCode :: "jsnum \<Rightarrow> 16 word" where
  "fromCharCode v = (case v of None \<Rightarrow> 0 | Some n \<Rightarrow> word_of_int n)"

section \<open>Exceptions\<close>

text \<open>
  \<open>new Exception({position, maxPosition, n}, message)\<close> carries the three numbers and
  the message; \<open>new Exception(message)\<close> carries the message only. A function that
  throws returns \<open>Inl\<close> of the exception, together with the stream as it was when the
  exception was thrown: what was written before a \<open>throw\<close> stays written.
\<close>

datatype Exception =
    Exception_fields (exn_position: int) (exn_maxPosition: int) (exn_n: int) (exn_message: string)
  | Exception_message string

section \<open>PullStream (pullstream.js)\<close>

text \<open>
  The stream after \<open>fromFile\<close> has called back: \<open>buffer\<close> holds the file's bytes,
  \<open>position\<close> is the read pointer and \<open>maxPosition\<close> the buffer's length. The stream
  before that (\<open>buffer\<close> and \<open>maxPosition\<close> undefined) is not modelled.
\<close>

record PullStream =
  buffer :: "byte list"
  position :: int
  maxPosition :: int

type_synonym 'a outcome = "(Exception + 'a) \<times> PullStream"

definition fromFile :: "byte list \<Rightarrow> PullStream" where
  "fromFile data = \<lparr>buffer = data, position = 0, maxPosition = int (length data)\<rparr>"

definition PullStream_hasMore :: "PullStream \<Rightarrow> int option \<Rightarrow> bool" where
  "PullStream_hasMore that n' =
     (let n = (case n' of None \<Rightarrow> 1 | Some k \<Rightarrow> k);
          remaining = maxPosition that - position that
      in if n > remaining then False else True)"

definition PullStream_ensureCapacity :: "PullStream \<Rightarrow> int \<Rightarrow> Exception + unit" where
  "PullStream_ensureCapacity that n =
     (let remaining = maxPosition that - position that
      in if n > remaining
         then Inl (Exception_fields (position that) (maxPosition that) n
                     ''Short read (stream end boundary reached)'')
         else Inr ())"

definition PullStream_skip :: "PullStream \<Rightarrow> int \<Rightarrow> unit outcome" where
  "PullStream_skip that len =
     (if len \<le> 0 then (Inr (), that)
      else case PullStream_ensureCapacity that len of
             Inl e \<Rightarrow> (Inl e, that)
           | Inr _ \<Rightarrow> (Inr (), that\<lparr>position := position that + len\<rparr>))"

definition PullStream_readByte :: "PullStream \<Rightarrow> jsnum outcome" where
  "PullStream_readByte that =
     (case PullStream_ensureCapacity that 1 of
        Inl e \<Rightarrow> (Inl e, that)
      | Inr _ \<Rightarrow>
          (let byte = buffer_at (buffer that) (position that)
           in (Inr byte, that\<lparr>position := position that + 1\<rparr>)))"

definition PullStream_readShort :: "PullStream \<Rightarrow> jsnum outcome" where
  "PullStream_readShort that =
     (case PullStream_ensureCapacity that 2 of
        Inl e \<Rightarrow> (Inl e, that)
      | Inr _ \<Rightarrow>
          (let b1 = buffer_at (buffer that) (position that);
               b2 = buffer_at (buffer that) (position that + 1)
           in (Inr (js_add (js_shl b1 8) b2), that\<lparr>position := position that + 2\<rparr>)))"

definition PullStream_read3Bytes :: "PullStream \<Rightarrow> jsnum outcome" where
  "PullStream_read3Bytes that =
     (case PullStream_ensureCapacity that 3 of
        Inl e \<Rightarrow> (Inl e, that)
      | Inr _ \<Rightarrow>
          (let b1 = buffer_at (buffer that) (position that);
               b2 = buffer_at (buffer that) (position that + 1);
               b3 = buffer_at (buffer that) (position that + 2)
           in (Inr (js_add (js_shl (js_add (js_shl b1 8) b2) 8) b3),
               that\<lparr>position := position that + 3\<rparr>)))"

definition PullStream_readLong :: "PullStream \<Rightarrow> jsnum outcome" where
  "PullStream_readLong that =
     (case PullStream_ensureCapacity that 4 of
        Inl e \<Rightarrow> (Inl e, that)
      | Inr _ \<Rightarrow>
          (let b1 = buffer_at (buffer that) (position that);
               b2 = buffer_at (buffer that) (position that + 1);
               b3 = buffer_at (buffer that) (position that + 2);
               b4 = buffer_at (buffer that) (position that + 3)
           in (Inr (js_add (js_shl (js_add (js_shl (js_add (js_shl b1 8) b2) 8) b3) 8) b4),
               that\<lparr>position := position that + 4\<rparr>)))"

definition PullStream_readASCII3 :: "PullStream \<Rightarrow> jsstring outcome" where
  "PullStream_readASCII3 that =
     (case PullStream_ensureCapacity that 3 of
        Inl e \<Rightarrow> (Inl e, that)
      | Inr _ \<Rightarrow>
          (let b1 = buffer_at (buffer that) (position that);
               b2 = buffer_at (buffer that) (position that + 1);
               b3 = buffer_at (buffer that) (position that + 2)
           in (Inr [fromCharCode b1, fromCharCode b2, fromCharCode b3],
               that\<lparr>position := position that + 3\<rparr>)))"

definition PullStream_readASCII4 :: "PullStream \<Rightarrow> jsstring outcome" where
  "PullStream_readASCII4 that =
     (case PullStream_ensureCapacity that 4 of
        Inl e \<Rightarrow> (Inl e, that)
      | Inr _ \<Rightarrow>
          (let b1 = buffer_at (buffer that) (position that);
               b2 = buffer_at (buffer that) (position that + 1);
               b3 = buffer_at (buffer that) (position that + 2);
               b4 = buffer_at (buffer that) (position that + 3)
           in (Inr [fromCharCode b1, fromCharCode b2, fromCharCode b3, fromCharCode b4],
               that\<lparr>position := position that + 4\<rparr>)))"

text \<open>
  \<open>scan3Bytes\<close> and \<open>scanLong\<close>: the \<open>while (that.hasMore())\<close> loop, with the
  rolling \<open>magic\<close> as an argument. Each turn reads one byte, so the number of bytes
  left decreases.
\<close>

function scan3Bytes_loop :: "int \<Rightarrow> jsnum \<Rightarrow> PullStream \<Rightarrow> bool outcome" where
  "scan3Bytes_loop expected magic that =
     (if PullStream_hasMore that None then
        (case PullStream_readByte that of
           (Inl e, that') \<Rightarrow> (Inl e, that')
         | (Inr b, that') \<Rightarrow>
             (let magic' = js_add (js_shl (js_and magic 0xFFFF) 8) b
              in if magic' = Some expected then (Inr True, that')
                 else scan3Bytes_loop expected magic' that'))
      else (Inr False, that))"
  by pat_completeness auto
termination
  by (relation "measure (\<lambda>(expected, magic, that). nat (maxPosition that - position that))")
     (auto simp: PullStream_hasMore_def PullStream_readByte_def PullStream_ensureCapacity_def
           split: if_splits)

definition PullStream_scan3Bytes :: "PullStream \<Rightarrow> int \<Rightarrow> bool outcome" where
  "PullStream_scan3Bytes that expected = scan3Bytes_loop expected (Some 0) that"

function scanLong_loop :: "int \<Rightarrow> jsnum \<Rightarrow> PullStream \<Rightarrow> bool outcome" where
  "scanLong_loop expected magic that =
     (if PullStream_hasMore that None then
        (case PullStream_readByte that of
           (Inl e, that') \<Rightarrow> (Inl e, that')
         | (Inr b, that') \<Rightarrow>
             (let magic' = js_add (js_shl (js_and magic 0xFFFFFF) 8) b
              in if magic' = Some expected then (Inr True, that')
                 else scanLong_loop expected magic' that'))
      else (Inr False, that))"
  by pat_completeness auto
termination
  by (relation "measure (\<lambda>(expected, magic, that). nat (maxPosition that - position that))")
     (auto simp: PullStream_hasMore_def PullStream_readByte_def PullStream_ensureCapacity_def
           split: if_splits)

definition PullStream_scanLong :: "PullStream \<Rightarrow> int \<Rightarrow> bool outcome" where
  "PullStream_scanLong that expected = scanLong_loop expected (Some 0) that"

section \<open>Node's Buffer methods used by the chunks\<close>

text \<open>
  \<open>buf.slice(start, end)\<close>: a negative index counts from the end of the buffer, an
  index beyond the length is the length, and an end before the start gives the empty
  slice. The slice is modelled by the bytes it shows when it is taken.
\<close>

definition slice_index :: "int \<Rightarrow> int \<Rightarrow> int" where
  "slice_index len i = (if i < 0 then max 0 (i + len) else min i len)"

definition Buffer_slice :: "byte list \<Rightarrow> int \<Rightarrow> int \<Rightarrow> byte list" where
  "Buffer_slice buf start end' =
     (let len = int (length buf);
          s = slice_index len start;
          e = slice_index len end';
          e = (if e < s then s else e)
      in take (nat (e - s)) (drop (nat s) buf))"

text \<open>
  \<open>buf.toString(encoding, start, end)\<close> decodes the bytes from \<open>start\<close> up to
  \<open>end\<close>, the end cut at the buffer's length, and is the empty string when
  \<open>end \<le> start\<close>. \<open>Buffer_toString_range\<close> gives the bytes that are decoded. (For a
  negative \<open>start\<close> or \<open>end\<close> Node's versions differ; the model takes a negative
  start as 0 and a negative end as an empty range, as the current versions do.)

  \<open>'ucs2'\<close> reads the bytes in pairs, low byte first, one code unit per pair, and
  drops an unpaired last byte. The \<open>'utf8'\<close> decoder is Node's own; the functions that
  use it take it as the parameter \<open>utf8\<close>.
\<close>

definition Buffer_toString_range :: "byte list \<Rightarrow> int \<Rightarrow> int \<Rightarrow> byte list" where
  "Buffer_toString_range buf start end' =
     (let s = max 0 start;
          e = min end' (int (length buf))
      in if e \<le> s then [] else take (nat (e - s)) (drop (nat s) buf))"

fun ucs2_decode :: "byte list \<Rightarrow> jsstring" where
  "ucs2_decode (lo # hi # rest) = (push_bit 8 (ucast hi) OR ucast lo) # ucs2_decode rest"
| "ucs2_decode _ = []"

definition Buffer_toString_ucs2 :: "byte list \<Rightarrow> int \<Rightarrow> int \<Rightarrow> jsstring" where
  "Buffer_toString_ucs2 buf start end' = ucs2_decode (Buffer_toString_range buf start end')"

definition Buffer_toString_utf8 ::
  "(byte list \<Rightarrow> jsstring) \<Rightarrow> byte list \<Rightarrow> int \<Rightarrow> int \<Rightarrow> jsstring" where
  "Buffer_toString_utf8 utf8 buf start end' = utf8 (Buffer_toString_range buf start end')"

section \<open>Chunk (chunk.js)\<close>

text \<open>
  A chunk holds its name, a reference to the stream it reads from, and its own
  \<open>maxPosition\<close> (here \<open>chunkMaxPosition\<close>, the stream's field having the name). All
  the chunks of a stream share that one stream object: the model passes the stream to
  every operation of a chunk and returns it as the operation leaves it.
\<close>

record Chunk =
  name :: string
  chunkMaxPosition :: int

definition newChunk :: "string \<Rightarrow> PullStream \<Rightarrow> int option \<Rightarrow> Chunk" where
  "newChunk nm stream len =
     \<lparr>name = nm,
      chunkMaxPosition = (case len of None \<Rightarrow> maxPosition stream
                                      | Some l \<Rightarrow> position stream + l)\<rparr>"

definition PullStream_chunk :: "PullStream \<Rightarrow> string \<Rightarrow> int option \<Rightarrow> Chunk" where
  "PullStream_chunk that nm len = newChunk nm that len"

definition Chunk_chunk :: "Chunk \<Rightarrow> PullStream \<Rightarrow> string \<Rightarrow> int option \<Rightarrow> Chunk" where
  "Chunk_chunk that stream nm len = newChunk nm stream len"

definition Chunk_hasMore :: "Chunk \<Rightarrow> PullStream \<Rightarrow> int option \<Rightarrow> bool" where
  "Chunk_hasMore that stream n' =
     (let n = (case n' of None \<Rightarrow> 1 | Some k \<Rightarrow> k);
          remaining = chunkMaxPosition that - position stream
      in if n > remaining then False else True)"

definition Chunk_ensureCapacity :: "Chunk \<Rightarrow> PullStream \<Rightarrow> int \<Rightarrow> Exception + unit" where
  "Chunk_ensureCapacity that stream n =
     (let remaining = chunkMaxPosition that - position stream
      in if n > remaining
         then Inl (Exception_fields (position stream) (chunkMaxPosition that) n
                     ''Short read (chunk end boundary reached)'')
         else Inr ())"

definition Chunk_skip :: "Chunk \<Rightarrow> PullStream \<Rightarrow> int option \<Rightarrow> unit outcome" where
  "Chunk_skip that stream n' =
     (case n' of
        None \<Rightarrow>
          (let remaining = chunkMaxPosition that - position stream
           in if remaining \<le> 0 then (Inr (), stream)
              else case Chunk_ensureCapacity that stream remaining of
                     Inl e \<Rightarrow> (Inl e, stream)
                   | Inr _ \<Rightarrow> PullStream_skip stream remaining)
      | Some n \<Rightarrow>
          (if n \<le> 0 then (Inr (), stream)
           else case Chunk_ensureCapacity that stream n of
                  Inl e \<Rightarrow> (Inl e, stream)
                | Inr _ \<Rightarrow> PullStream_skip stream n))"

definition Chunk_extend :: "Chunk \<Rightarrow> int \<Rightarrow> Chunk" where
  "Chunk_extend that n =
     (if chunkMaxPosition that \<noteq> 0
      then that\<lparr>chunkMaxPosition := chunkMaxPosition that + n\<rparr>
      else that)"

definition Chunk_readByte :: "Chunk \<Rightarrow> PullStream \<Rightarrow> jsnum outcome" where
  "Chunk_readByte that stream =
     (case Chunk_ensureCapacity that stream 1 of
        Inl e \<Rightarrow> (Inl e, stream)
      | Inr _ \<Rightarrow> PullStream_readByte stream)"

definition Chunk_readShort :: "Chunk \<Rightarrow> PullStream \<Rightarrow> jsnum outcome" where
  "Chunk_readShort that stream =
     (case Chunk_ensureCapacity that stream 2 of
        Inl e \<Rightarrow> (Inl e, stream)
      | Inr _ \<Rightarrow> PullStream_readShort stream)"

definition Chunk_read3Bytes :: "Chunk \<Rightarrow> PullStream \<Rightarrow> jsnum outcome" where
  "Chunk_read3Bytes that stream =
     (case Chunk_ensureCapacity that stream 3 of
        Inl e \<Rightarrow> (Inl e, stream)
      | Inr _ \<Rightarrow> PullStream_read3Bytes stream)"

definition Chunk_readLong :: "Chunk \<Rightarrow> PullStream \<Rightarrow> jsnum outcome" where
  "Chunk_readLong that stream =
     (case Chunk_ensureCapacity that stream 4 of
        Inl e \<Rightarrow> (Inl e, stream)
      | Inr _ \<Rightarrow> PullStream_readLong stream)"

definition Chunk_readASCII3 :: "Chunk \<Rightarrow> PullStream \<Rightarrow> jsstring outcome" where
  "Chunk_readASCII3 that stream =
     (case Chunk_ensureCapacity that stream 3 of
        Inl e \<Rightarrow> (Inl e, stream)
      | Inr _ \<Rightarrow> PullStream_readASCII3 stream)"

definition Chunk_readASCII4 :: "Chunk \<Rightarrow> PullStream \<Rightarrow> jsstring outcome" where
  "Chunk_readASCII4 that stream =
     (case Chunk_ensureCapacity that stream 4 of
        Inl e \<Rightarrow> (Inl e, stream)
      | Inr _ \<Rightarrow> PullStream_readASCII4 stream)"

subsection \<open>Zero-terminated and whole-chunk strings\<close>

text \<open>
  \<open>readZString88591\<close>: the loop returns \<open>(True, str)\<close> when it has read a zero byte
  (the \<open>return str\<close> inside the loop) and \<open>(False, str)\<close> when it ends at the chunk's
  boundary; what follows the loop is in \<open>Chunk_readZString88591\<close>.
\<close>

function readZString88591_loop :: "Chunk \<Rightarrow> jsstring \<Rightarrow> PullStream \<Rightarrow> (bool \<times> jsstring) \<times> PullStream" where
  "readZString88591_loop that str stream =
     (if chunkMaxPosition that - position stream > 0 then
        (let b = buffer_at (buffer stream) (position stream);
             stream' = stream\<lparr>position := position stream + 1\<rparr>
         in if b = Some 0 then ((True, str), stream')
            else readZString88591_loop that (str @ [fromCharCode b]) stream')
      else ((False, str), stream))"
  by pat_completeness auto
termination
  by (relation "measure (\<lambda>(that, str, stream). nat (chunkMaxPosition that - position stream))")
     auto

definition Chunk_readZString88591 :: "Chunk \<Rightarrow> PullStream \<Rightarrow> bool \<Rightarrow> jsstring outcome" where
  "Chunk_readZString88591 that stream allowShortRead =
     (case readZString88591_loop that [] stream of
        ((True, str), stream') \<Rightarrow> (Inr str, stream')
      | ((False, str), stream') \<Rightarrow>
          (if allowShortRead then (Inr str, stream')
           else (Inl (Exception_message
                   ''Short read (chunk end boundary reached) when reading ISO-8859-1 string''),
                 stream')))"

text \<open>
  \<open>_ucs2(buffer, from, to, bigEndian)\<close>. When \<open>bigEndian\<close> is set it copies the
  bytes pair by pair into \<open>new Buffer(len)\<close> and decodes the copy; the pairs are
  copied as they stand (\<open>readZStringUTF16\<close> has already swapped them in the stream's
  buffer). \<open>new Buffer(len)\<close> gives \<open>len\<close> bytes of unspecified content (none for a
  negative \<open>len\<close>); the model takes zeros. The loop leaves at most an unpaired last byte
  unwritten.
\<close>

function ucs2_copy :: "byte list \<Rightarrow> int \<Rightarrow> int \<Rightarrow> int \<Rightarrow> byte list \<Rightarrow> byte list" where
  "ucs2_copy buf from len i b2 =
     (if i < len - 1
      then ucs2_copy buf from len (i + 2)
             (buffer_put (buffer_put b2 i (buffer_at buf (from + i)))
                (i + 1) (buffer_at buf (from + i + 1)))
      else b2)"
  by pat_completeness auto
termination
  by (relation "measure (\<lambda>(buf, from, len, i, b2). nat (len - 1 - i))") auto

definition ucs2 :: "byte list \<Rightarrow> int \<Rightarrow> int \<Rightarrow> bool \<Rightarrow> jsstring" where
  "ucs2 buf from to bigEndian =
     (if \<not> bigEndian then Buffer_toString_ucs2 buf from to
      else (let len = to - from;
                b2 = replicate (nat len) 0;
                b2 = ucs2_copy buf from len 0 b2
            in ucs2_decode b2))"

text \<open>
  \<open>readZStringUTF16\<close>. \<open>malformedBOM\<close> is the first \<open>if\<close> of the loop's body: for
  the pair \<open>0xFF 0x00\<close> it takes the next byte of the buffer as \<open>b1\<close> and \<open>0xFF\<close> as
  \<open>b2\<close>, writes 0 over that next byte and the byte it held over the one before it.
  The loop returns \<open>Inl str\<close> for the \<open>return\<close> at the terminator and
  \<open>Inr (from, bigEndian)\<close> when it ends at the chunk's boundary.
\<close>

definition malformedBOM :: "jsnum \<Rightarrow> jsnum \<Rightarrow> PullStream \<Rightarrow> jsnum \<times> jsnum \<times> PullStream" where
  "malformedBOM b1 b2 stream =
     (if b1 = Some 0xFF \<and> b2 = Some 0x00 then
        (let b2' = b1;
             b1' = buffer_at (buffer stream) (position stream);
             buf = buffer_put (buffer stream) (position stream) (Some 0);
             buf = buffer_put buf (position stream - 1) b1'
         in (b1', b2', stream\<lparr>buffer := buf\<rparr>))
      else (b1, b2, stream))"

function readZStringUTF16_loop ::
  "Chunk \<Rightarrow> int \<Rightarrow> bool \<Rightarrow> PullStream \<Rightarrow> (jsstring + int \<times> bool) \<times> PullStream" where
  "readZStringUTF16_loop that from bigEndian stream =
     (if chunkMaxPosition that - position stream > 1 then
        (case malformedBOM (buffer_at (buffer stream) (position stream))
                (buffer_at (buffer stream) (position stream + 1))
                (stream\<lparr>position := position stream + 2\<rparr>) of
           (b1, b2, stream') \<Rightarrow>
             if b1 = Some 0xFF \<and> b2 = Some 0xFE
               then readZStringUTF16_loop that (from + 2) bigEndian stream'
             else if b1 = Some 0xFE \<and> b2 = Some 0xFF
               then readZStringUTF16_loop that (from + 2) True stream'
             else if b1 = Some 0x00 \<and> b2 = Some 0x00
               then (Inl (ucs2 (buffer stream') from (position stream' - 2) False), stream')
             else if bigEndian
               then readZStringUTF16_loop that from bigEndian
                      (stream'\<lparr>buffer :=
                         buffer_put (buffer_put (buffer stream') (position stream' - 2) b2)
                           (position stream' - 1) b1\<rparr>)
             else readZStringUTF16_loop that from bigEndian stream')
      else (Inr (from, bigEndian), stream))"
  by pat_completeness auto
termination
  by (relation "measure (\<lambda>(that, from, bigEndian, stream).
                  nat (chunkMaxPosition that - position stream))")
     (auto simp: malformedBOM_def Let_def split: if_splits)

definition Chunk_readZStringUTF16 :: "Chunk \<Rightarrow> PullStream \<Rightarrow> bool \<Rightarrow> jsstring outcome" where
  "Chunk_readZStringUTF16 that stream allowShortRead =
     (case readZStringUTF16_loop that (position stream) False stream of
        (Inl str, stream') \<Rightarrow> (Inr str, stream')
      | (Inr (from, bigEndian), stream') \<Rightarrow>
          (if allowShortRead
           then (Inr (ucs2 (buffer stream') from (chunkMaxPosition that) bigEndian), stream')
           else (Inl (Exception_message
                   ''Short read (chunk end boundary reached) when reading UTF-16 string''),
                 stream')))"

text \<open>
  \<open>readZStringUTF8\<close>: the loop returns \<open>True\<close> when it has read a zero byte and
  \<open>False\<close> when it ends at the chunk's boundary.
\<close>

function readZStringUTF8_loop :: "Chunk \<Rightarrow> PullStream \<Rightarrow> bool \<times> PullStream" where
  "readZStringUTF8_loop that stream =
     (if chunkMaxPosition that - position stream \<ge> 1 then
        (let b = buffer_at (buffer stream) (position stream);
             stream' = stream\<lparr>position := position stream + 1\<rparr>
         in if b = Some 0 then (True, stream')
            else readZStringUTF8_loop that stream')
      else (False, stream))"
  by pat_completeness auto
termination
  by (relation "measure (\<lambda>(that, stream). nat (chunkMaxPosition that - position stream))")
     auto

definition Chunk_readZStringUTF8 ::
  "(byte list \<Rightarrow> jsstring) \<Rightarrow> Chunk \<Rightarrow> PullStream \<Rightarrow> bool \<Rightarrow> jsstring outcome" where
  "Chunk_readZStringUTF8 utf8 that stream allowShortRead =
     (let from = position stream
      in case readZStringUTF8_loop that stream of
           (True, stream') \<Rightarrow>
             (Inr (Buffer_toString_utf8 utf8 (buffer stream') from (position stream' - 1)),
              stream')
         | (False, stream') \<Rightarrow>
             (if allowShortRead
              then (Inr (Buffer_toString_utf8 utf8 (buffer stream') from (chunkMaxPosition that)),
                    stream')
              else (Inl (Exception_message
                      ''Short read (chunk end boundary reached) when reading UTF-8 string''),
                    stream')))"

function readString88591_loop :: "Chunk \<Rightarrow> jsstring \<Rightarrow> PullStream \<Rightarrow> jsstring \<times> PullStream" where
  "readString88591_loop that str stream =
     (if chunkMaxPosition that - position stream > 0 then
        (let b = buffer_at (buffer stream) (position stream);
             stream' = stream\<lparr>position := position stream + 1\<rparr>
         in readString88591_loop that (str @ [fromCharCode b]) stream')
      else (str, stream))"
  by pat_completeness auto
termination
  by (relation "measure (\<lambda>(that, str, stream). nat (chunkMaxPosition that - position stream))")
     auto

definition Chunk_readString88591 :: "Chunk \<Rightarrow> PullStream \<Rightarrow> jsstring outcome" where
  "Chunk_readString88591 that stream =
     (case readString88591_loop that [] stream of (str, stream') \<Rightarrow> (Inr str, stream'))"

definition Chunk_readStringUTF8 ::
  "(byte list \<Rightarrow> jsstring) \<Rightarrow> Chunk \<Rightarrow> PullStream \<Rightarrow> jsstring outcome" where
  "Chunk_readStringUTF8 utf8 that stream =
     (Inr (Buffer_toString_utf8 utf8 (buffer stream) (position stream) (chunkMaxPosition that)),
      stream)"

definition Chunk_readStringUTF16 :: "Chunk \<Rightarrow> PullStream \<Rightarrow> jsstring outcome" where
  "Chunk_readStringUTF16 that stream =
     (Inr (Buffer_toString_ucs2 (buffer stream) (position stream) (chunkMaxPosition that)),
      stream)"

definition Chunk_readBuffer :: "Chunk \<Rightarrow> PullStream \<Rightarrow> (byte list) outcome" where
  "Chunk_readBuffer that stream =
     (Inr (Buffer_slice (buffer stream) (position stream) (chunkMaxPosition that)), stream)"

section \<open>A stream, the chunks made from it, and the calls a program issues\<close>

text \<open>
  A program holds one stream and the chunks it has made from it, and calls their
  methods one after the other. \<open>World\<close> is that state; a chunk is named by its index
  in \<open>chunks\<close>, in the order of creation. \<open>Call\<close> lists the methods: \<open>S_\<close> for a
  call on the stream, \<open>C_ i\<close> for a call on chunk \<open>i\<close>. A call that throws leaves the
  state as it is at the \<open>throw\<close> (the program may catch the exception and go on). A
  call on a chunk that does not exist changes nothing.
\<close>

datatype FixedRead = ReadByte | ReadShort | Read3Bytes | ReadLong | ReadASCII3 | ReadASCII4

datatype Value = Number jsnum | String jsstring

fun width :: "FixedRead \<Rightarrow> int" where
  "width ReadByte = 1"
| "width ReadShort = 2"
| "width Read3Bytes = 3"
| "width ReadLong = 4"
| "width ReadASCII3 = 3"
| "width ReadASCII4 = 4"

definition as_number :: "jsnum outcome \<Rightarrow> Value outcome" where
  "as_number r = (map_sum id Number (fst r), snd r)"

definition as_string :: "jsstring outcome \<Rightarrow> Value outcome" where
  "as_string r = (map_sum id String (fst r), snd r)"

fun PullStream_read :: "FixedRead \<Rightarrow> PullStream \<Rightarrow> Value outcome" where
  "PullStream_read ReadByte that = as_number (PullStream_readByte that)"
| "PullStream_read ReadShort that = as_number (PullStream_readShort that)"
| "PullStream_read Read3Bytes that = as_number (PullStream_read3Bytes that)"
| "PullStream_read ReadLong that = as_number (PullStream_readLong that)"
| "PullStream_read ReadASCII3 that = as_string (PullStream_readASCII3 that)"
| "PullStream_read ReadASCII4 that = as_string (PullStream_readASCII4 that)"

fun Chunk_read :: "FixedRead \<Rightarrow> Chunk \<Rightarrow> PullStream \<Rightarrow> Value outcome" where
  "Chunk_read ReadByte that stream = as_number (Chunk_readByte that stream)"
| "Chunk_read ReadShort that stream = as_number (Chunk_readShort that stream)"
| "Chunk_read Read3Bytes that stream = as_number (Chunk_read3Bytes that stream)"
| "Chunk_read ReadLong that stream = as_number (Chunk_readLong that stream)"
| "Chunk_read ReadASCII3 that stream = as_string (Chunk_readASCII3 that stream)"
| "Chunk_read ReadASCII4 that stream = as_string (Chunk_readASCII4 that stream)"

record World =
  stream :: PullStream
  chunks :: "Chunk list"

datatype Call =
    S_chunk string "int option"
  | S_hasMore "int option"
  | S_skip int
  | S_read FixedRead
  | S_scan3Bytes int
  | S_scanLong int
  | C_chunk nat string "int option"
  | C_hasMore nat "int option"
  | C_skip nat "int option"
  | C_extend nat int
  | C_read nat FixedRead
  | C_readZString88591 nat bool
  | C_readZStringUTF16 nat bool
  | C_readZStringUTF8 nat bool
  | C_readString88591 nat
  | C_readStringUTF8 nat
  | C_readStringUTF16 nat
  | C_readBuffer nat

definition populate :: "byte list \<Rightarrow> World" where
  "populate data = \<lparr>stream = fromFile data, chunks = []\<rparr>"

definition on_chunk :: "World \<Rightarrow> nat \<Rightarrow> (Chunk \<Rightarrow> PullStream \<Rightarrow> PullStream) \<Rightarrow> World" where
  "on_chunk w i f =
     (if i < length (chunks w) then w\<lparr>stream := f (chunks w ! i) (stream w)\<rparr> else w)"

fun call :: "(byte list \<Rightarrow> jsstring) \<Rightarrow> Call \<Rightarrow> World \<Rightarrow> World" where
  "call utf8 (S_chunk nm len) w = w\<lparr>chunks := chunks w @ [PullStream_chunk (stream w) nm len]\<rparr>"
| "call utf8 (S_hasMore n) w = w"
| "call utf8 (S_skip n) w = w\<lparr>stream := snd (PullStream_skip (stream w) n)\<rparr>"
| "call utf8 (S_read r) w = w\<lparr>stream := snd (PullStream_read r (stream w))\<rparr>"
| "call utf8 (S_scan3Bytes expected) w = w\<lparr>stream := snd (PullStream_scan3Bytes (stream w) expected)\<rparr>"
| "call utf8 (S_scanLong expected) w = w\<lparr>stream := snd (PullStream_scanLong (stream w) expected)\<rparr>"
| "call utf8 (C_chunk i nm len) w =
     (if i < length (chunks w)
      then w\<lparr>chunks := chunks w @ [Chunk_chunk (chunks w ! i) (stream w) nm len]\<rparr>
      else w)"
| "call utf8 (C_hasMore i n) w = w"
| "call utf8 (C_skip i n) w = on_chunk w i (\<lambda>c s. snd (Chunk_skip c s n))"
| "call utf8 (C_extend i n) w =
     (if i < length (chunks w)
      then w\<lparr>chunks := (chunks w)[i := Chunk_extend (chunks w ! i) n]\<rparr>
      else w)"
| "call utf8 (C_read i r) w = on_chunk w i (\<lambda>c s. snd (Chunk_read r c s))"
| "call utf8 (C_readZString88591 i a) w = on_chunk w i (\<lambda>c s. snd (Chunk_readZString88591 c s a))"
| "call utf8 (C_readZStringUTF16 i a) w = on_chunk w i (\<lambda>c s. snd (Chunk_readZStringUTF16 c s a))"
| "call utf8 (C_readZStringUTF8 i a) w = on_chunk w i (\<lambda>c s. snd (Chunk_readZStringUTF8 utf8 c s a))"
| "call utf8 (C_readString88591 i) w = on_chunk w i (\<lambda>c s. snd (Chunk_readString88591 c s))"
| "call utf8 (C_readStringUTF8 i) w = on_chunk w i (\<lambda>c s. snd (Chunk_readStringUTF8 utf8 c s))"
| "call utf8 (C_readStringUTF16 i) w = on_chunk w i (\<lambda>c s. snd (Chunk_readStringUTF16 c s))"
| "call utf8 (C_readBuffer i) w = on_chunk w i (\<lambda>c s. snd (Chunk_readBuffer c s))"

fun calls :: "(byte list \<Rightarrow> jsstring) \<Rightarrow> Call list \<Rightarrow> World \<Rightarrow> World" where
  "calls utf8 [] w = w"
| "calls utf8 (c # cs) w = calls utf8 cs (call utf8 c w)"

section \<open>Notions of the specification\<close>

text \<open>
  The specification's big-endian composition, as it words it: the fold
  \<open>sum = sum * 256 + nextByte\<close> over the bytes, from 0.
\<close>

definition fold_big_endian :: "byte list \<Rightarrow> int" where
  "fold_big_endian bs = foldl (\<lambda>sum b. sum * 256 + uint b) 0 bs"

text \<open>
  \<open>positioned before after\<close> is a stream read from a file holding \<open>before @ after\<close>,
  with the bytes of \<open>before\<close> already read: the next read starts at \<open>after\<close>.
\<close>

definition positioned :: "byte list \<Rightarrow> byte list \<Rightarrow> PullStream" where
  "positioned before after =
     \<lparr>buffer = before @ after, position = int (length before),
      maxPosition = int (length before + length after)\<rparr>"

text \<open>
  The byte range \<open>[lo, hi)\<close> of a buffer, as the specification speaks of it: the bytes
  at the indices from \<open>lo\<close> up to, not including, \<open>hi\<close>.
\<close>

definition byte_range :: "byte list \<Rightarrow> int \<Rightarrow> int \<Rightarrow> byte list" where
  "byte_range buf lo hi = drop (nat lo) (take (nat hi) buf)"

text \<open>
  The scans as a function on lists. \<open>w\<close> holds the bytes read last, as many as the
  pattern \<open>pat\<close> has (zeros before anything is read); each byte of \<open>bs\<close> is shifted
  in at the end of \<open>w\<close>. The result is the index in \<open>bs\<close> of the first byte at which
  \<open>w\<close> is \<open>pat\<close>, if there is one.
\<close>

fun scan_window :: "byte list \<Rightarrow> byte list \<Rightarrow> byte list \<Rightarrow> nat option" where
  "scan_window pat w [] = None"
| "scan_window pat w (b # bs) =
     (if tl w @ [b] = pat then Some 0
      else map_option Suc (scan_window pat (tl w @ [b]) bs))"




fun swap_pairs :: "byte list \<Rightarrow> byte list" where
  "swap_pairs (b1 # b2 # bs) = b2 # b1 # swap_pairs bs"
| "swap_pairs [b] = [b]"
| "swap_pairs [] = []"

text \<open>
  The invariant of the cursor: \<open>0 \<le> position \<le> length\<close>, the length being the
  buffer's and the stream's \<open>maxPosition\<close>.
\<close>

definition cursor_inv :: "PullStream \<Rightarrow> bool" where
  "cursor_inv s \<longleftrightarrow>
     0 \<le> position s \<and> position s \<le> maxPosition s \<and> maxPosition s = int (length (buffer s))"

text \<open>
  The calls whose loops test the chunk's \<open>maxPosition\<close> alone before they advance the
  stream's position (they never call \<open>ensureCapacity\<close> of the stream), with the chunk
  they read through.
\<close>

fun chunk_bounded :: "Call \<Rightarrow> nat option" where
  "chunk_bounded (C_readZString88591 i a) = Some i"
| "chunk_bounded (C_readZStringUTF16 i a) = Some i"
| "chunk_bounded (C_readZStringUTF8 i a) = Some i"
| "chunk_bounded (C_readString88591 i) = Some i"
| "chunk_bounded _ = None"

text \<open>
  \<open>call_within w c\<close>: if \<open>c\<close> is one of those calls, its chunk ends inside the
  buffer. \<open>calls_within\<close> asks it of every call of a sequence, in the state the call is
  issued in.
\<close>

definition call_within :: "World \<Rightarrow> Call \<Rightarrow> bool" where
  "call_within w c =
     (case chunk_bounded c of
        None \<Rightarrow> True
      | Some i \<Rightarrow> i < length (chunks w) \<longrightarrow>
                    chunkMaxPosition (chunks w ! i) \<le> maxPosition (stream w))"

fun calls_within :: "(byte list \<Rightarrow> jsstring) \<Rightarrow> Call list \<Rightarrow> World \<Rightarrow> bool" where
  "calls_within utf8 [] w = True"
| "calls_within utf8 (c # cs) w = (call_within w c \<and> calls_within utf8 cs (call utf8 c w))"

text \<open>
  The invariant of the chunks that the specification states: every chunk's
  \<open>maxPosition\<close> is at most the stream's. \<open>call_fits w c\<close>: a chunk made by \<open>c\<close> with
  an explicit length ends inside the buffer, and so does a chunk that \<open>c\<close> extends.
\<close>

definition chunks_within :: "World \<Rightarrow> bool" where
  "chunks_within w \<longleftrightarrow> (\<forall>c \<in> set (chunks w). chunkMaxPosition c \<le> maxPosition (stream w))"

fun call_fits :: "World \<Rightarrow> Call \<Rightarrow> bool" where
  "call_fits w (S_chunk nm (Some k)) = (position (stream w) + k \<le> maxPosition (stream w))"
| "call_fits w (C_chunk i nm (Some k)) =
     (i < length (chunks w) \<longrightarrow> position (stream w) + k \<le> maxPosition (stream w))"
| "call_fits w (C_extend i n) =
     (i < length (chunks w) \<longrightarrow>
        chunkMaxPosition (chunks w ! i) = 0 \<or>
        chunkMaxPosition (chunks w ! i) + n \<le> maxPosition (stream w))"
| "call_fits w _ = True"

fun calls_fit :: "(byte list \<Rightarrow> jsstring) \<Rightarrow> Call list \<Rightarrow> World \<Rightarrow> bool" where
  "calls_fit utf8 [] w = True"
| "calls_fit utf8 (c # cs) w = (call_fits w c \<and> calls_fit utf8 cs (call utf8 c w))"

text \<open>
  \<open>moved_within s s' bound\<close>: from \<open>s\<close> to \<open>s'\<close> the position has not gone back and
  has not passed \<open>bound\<close> (unless it was beyond it already), and the buffer's length
  and \<open>maxPosition\<close> are the same.
\<close>

definition moved_within :: "PullStream \<Rightarrow> PullStream \<Rightarrow> int \<Rightarrow> bool" where
  "moved_within s s' bound \<longleftrightarrow>
     position s \<le> position s' \<and> position s' \<le> max (position s) bound \<and>
     maxPosition s' = maxPosition s \<and> length (buffer s') = length (buffer s)"

text \<open>
  \<open>unterminated c s\<close>: no byte of the buffer from the position up to the chunk's
  \<open>maxPosition\<close> is zero.
\<close>

definition unterminated :: "Chunk \<Rightarrow> PullStream \<Rightarrow> bool" where
  "unterminated c s \<longleftrightarrow>
     (\<forall>i. position s \<le> i \<and> i < chunkMaxPosition c \<longrightarrow> buffer_at (buffer s) i \<noteq> Some 0)"

text \<open>
  \<open>within_throughout utf8 cs w\<close>: the invariant of the chunks holds in \<open>w\<close> and after
  each of the calls \<open>cs\<close>, issued in turn from \<open>w\<close>.
\<close>

fun within_throughout :: "(byte list \<Rightarrow> jsstring) \<Rightarrow> Call list \<Rightarrow> World \<Rightarrow> bool" where
  "within_throughout utf8 [] w = chunks_within w"
| "within_throughout utf8 (c # cs) w =
     (chunks_within w \<and> within_throughout utf8 cs (call utf8 c w))"

section \<open>Proofs\<close>

text \<open>
  The loops' equations unfold without end; they are applied by hand, one turn at a
  time.
\<close>

declare scan3Bytes_loop.simps [simp del]
declare scanLong_loop.simps [simp del]
declare readZString88591_loop.simps [simp del]
declare readZStringUTF16_loop.simps [simp del]
declare readZStringUTF8_loop.simps [simp del]
declare readString88591_loop.simps [simp del]
declare ucs2_copy.simps [simp del]

section \<open>The repository's test, on the model\<close>

text \<open>
  The test of \<open>PullStream\<close> reads a text file that begins with \<open>Pull co\<close> and
  asserts \<open>readByte() = 0x50\<close>, \<open>readByte() = 0x75\<close>, \<open>readShort() = 0x6C6C\<close>,
  \<open>readByte() = 0x20\<close> and \<open>readShort() = 0x636F\<close> (an unaligned short). The model
  returns the same values on these bytes.
\<close>

lemma test_reads:
  "fst (PullStream_readByte (positioned [] [0x50, 0x75, 0x6C, 0x6C, 0x20, 0x63, 0x6F])) =
     Inr (Some 0x50)"
  "fst (PullStream_readByte (positioned [0x50] [0x75, 0x6C, 0x6C, 0x20, 0x63, 0x6F])) =
     Inr (Some 0x75)"
  "fst (PullStream_readShort (positioned [0x50, 0x75] [0x6C, 0x6C, 0x20, 0x63, 0x6F])) =
     Inr (Some 0x6C6C)"
  "fst (PullStream_readByte (positioned [0x50, 0x75, 0x6C, 0x6C] [0x20, 0x63, 0x6F])) =
     Inr (Some 0x20)"
  "fst (PullStream_readShort (positioned [0x50, 0x75, 0x6C, 0x6C, 0x20] [0x63, 0x6F])) =
     Inr (Some 0x636F)"
  by code_simp+

section \<open>Big-endian integers\<close>

lemma uint_byte_bounds: "0 \<le> uint (b::byte)" "uint (b::byte) < 256"
  using uint_lt2p [of b] by simp_all

lemma ToInt32_small: "- 2147483648 \<le> x \<Longrightarrow> x < 2147483648 \<Longrightarrow> ToInt32 x = x"
  by (simp add: ToInt32_def)

lemma ToInt32_high:
  assumes "2147483648 \<le> x" "x < 4294967296"
  shows "ToInt32 x = x - 4294967296"
proof -
  have "x + 2147483648 = x - 2147483648 + 4294967296"
    by arith
  then have "(x + 2147483648) mod 4294967296 = (x - 2147483648 + 4294967296) mod 4294967296"
    by (rule arg_cong)
  also have "\<dots> = (x - 2147483648) mod 4294967296"
    by (rule mod_add_self2)
  also have "\<dots> = x - 2147483648"
    using assms by (intro mod_pos_pos_trivial) auto
  finally show ?thesis by (simp add: ToInt32_def)
qed

lemma buffer_at_positioned:
  "0 \<le> k \<Longrightarrow> nat k < length after \<Longrightarrow>
   buffer_at (before @ after) (int (length before) + k) = Some (uint (after ! nat k))"
  by (auto simp: buffer_at_def nth_append nat_add_distrib)

lemma js_byte_step:
  assumes "0 \<le> x" "x < 65536" "0 \<le> b" "b < 256"
  shows "js_add (js_shl (Some x) 8) (Some b) = Some (x * 256 + b)"
proof -
  have "ToInt32 x = x"
    using assms by (intro ToInt32_small) auto
  moreover have "ToInt32 (x * 256) = x * 256"
    using assms by (intro ToInt32_small) auto
  ultimately show ?thesis
    by (simp add: js_shl_def js_int32_def js_add_def)
qed

lemma js_byte_step_wrap:
  assumes "0 \<le> x" "x < 16777216" "0 \<le> b" "b < 256"
  shows "js_add (js_shl (Some x) 8) (Some b) = Some (ToInt32 (x * 256 + b))"
proof -
  have x: "ToInt32 x = x"
    using assms by (intro ToInt32_small) auto
  have "ToInt32 (x * 256) + b = ToInt32 (x * 256 + b)"
  proof (cases "x < 8388608")
    case True
    with assms have "ToInt32 (x * 256) = x * 256" "ToInt32 (x * 256 + b) = x * 256 + b"
      by (auto intro!: ToInt32_small)
    then show ?thesis by simp
  next
    case False
    with assms have "ToInt32 (x * 256) = x * 256 - 4294967296"
      "ToInt32 (x * 256 + b) = x * 256 + b - 4294967296"
      by (auto intro!: ToInt32_high)
    then show ?thesis by simp
  qed
  with x show ?thesis
    by (simp add: js_shl_def js_int32_def js_add_def)
qed

lemma compose2:
  "js_add (js_shl (Some (uint (b1::byte))) 8) (Some (uint (b2::byte))) = Some (uint b1 * 256 + uint b2)"
  using uint_byte_bounds [of b1] uint_byte_bounds [of b2] by (intro js_byte_step) auto

lemma compose3:
  "js_add (js_shl (Some (uint (b1::byte) * 256 + uint (b2::byte))) 8) (Some (uint (b3::byte))) =
     Some ((uint b1 * 256 + uint b2) * 256 + uint b3)"
  using uint_byte_bounds [of b1] uint_byte_bounds [of b2] uint_byte_bounds [of b3]
  by (intro js_byte_step) auto

lemma compose4:
  "js_add (js_shl (Some ((uint (b1::byte) * 256 + uint (b2::byte)) * 256 + uint (b3::byte))) 8)
      (Some (uint (b4::byte))) =
     Some (ToInt32 (((uint b1 * 256 + uint b2) * 256 + uint b3) * 256 + uint b4))"
  using uint_byte_bounds [of b1] uint_byte_bounds [of b2] uint_byte_bounds [of b3]
    uint_byte_bounds [of b4]
  by (intro js_byte_step_wrap) auto

lemma fold_big_endian2: "fold_big_endian [b1, b2] = uint b1 * 256 + uint b2"
  by (simp add: fold_big_endian_def)

lemma fold_big_endian3: "fold_big_endian [b1, b2, b3] = (uint b1 * 256 + uint b2) * 256 + uint b3"
  by (simp add: fold_big_endian_def)

lemma fold_big_endian4:
  "fold_big_endian [b1, b2, b3, b4] = ((uint b1 * 256 + uint b2) * 256 + uint b3) * 256 + uint b4"
  by (simp add: fold_big_endian_def)

lemma buffer_at_first4:
  "buffer_at (pre @ b1 # rest) (int (length pre)) = Some (uint b1)"
  "buffer_at (pre @ b1 # b2 # rest) (int (length pre) + 1) = Some (uint b2)"
  "buffer_at (pre @ b1 # b2 # b3 # rest) (int (length pre) + 2) = Some (uint b3)"
  "buffer_at (pre @ b1 # b2 # b3 # b4 # rest) (int (length pre) + 3) = Some (uint b4)"
  using buffer_at_positioned [of 0 "b1 # rest" pre]
    buffer_at_positioned [of 1 "b1 # b2 # rest" pre]
    buffer_at_positioned [of 2 "b1 # b2 # b3 # rest" pre]
    buffer_at_positioned [of 3 "b1 # b2 # b3 # b4 # rest" pre]
  by (simp_all add: numeral_2_eq_2 numeral_3_eq_3)

lemma readShort_positioned:
  "PullStream_readShort (positioned pre (b1 # b2 # rest)) =
     (Inr (Some (fold_big_endian [b1, b2])),
      (positioned pre (b1 # b2 # rest))\<lparr>position := int (length pre) + 2\<rparr>)"
proof -
  have "PullStream_readShort (positioned pre (b1 # b2 # rest)) =
     (Inr (js_add (js_shl (Some (uint b1)) 8) (Some (uint b2))),
      (positioned pre (b1 # b2 # rest))\<lparr>position := int (length pre) + 2\<rparr>)"
    by (simp add: PullStream_readShort_def PullStream_ensureCapacity_def positioned_def
          buffer_at_first4)
  then show ?thesis
    by (simp only: compose2 fold_big_endian2)
qed

lemma read3Bytes_positioned:
  "PullStream_read3Bytes (positioned pre (b1 # b2 # b3 # rest)) =
     (Inr (Some (fold_big_endian [b1, b2, b3])),
      (positioned pre (b1 # b2 # b3 # rest))\<lparr>position := int (length pre) + 3\<rparr>)"
proof -
  have "PullStream_read3Bytes (positioned pre (b1 # b2 # b3 # rest)) =
     (Inr (js_add (js_shl (js_add (js_shl (Some (uint b1)) 8) (Some (uint b2))) 8) (Some (uint b3))),
      (positioned pre (b1 # b2 # b3 # rest))\<lparr>position := int (length pre) + 3\<rparr>)"
    by (simp add: PullStream_read3Bytes_def PullStream_ensureCapacity_def positioned_def
          buffer_at_first4)
  then show ?thesis
    by (simp only: compose2 compose3 fold_big_endian3)
qed

lemma readLong_positioned:
  "PullStream_readLong (positioned pre (b1 # b2 # b3 # b4 # rest)) =
     (Inr (Some (ToInt32 (fold_big_endian [b1, b2, b3, b4]))),
      (positioned pre (b1 # b2 # b3 # b4 # rest))\<lparr>position := int (length pre) + 4\<rparr>)"
proof -
  have "PullStream_readLong (positioned pre (b1 # b2 # b3 # b4 # rest)) =
     (Inr (js_add (js_shl (js_add (js_shl (js_add (js_shl (Some (uint b1)) 8) (Some (uint b2))) 8)
              (Some (uint b3))) 8) (Some (uint b4))),
      (positioned pre (b1 # b2 # b3 # b4 # rest))\<lparr>position := int (length pre) + 4\<rparr>)"
    by (simp add: PullStream_readLong_def PullStream_ensureCapacity_def positioned_def
          buffer_at_first4)
  then show ?thesis
    by (simp only: compose2 compose3 compose4 fold_big_endian4)
qed

lemma fold4_bounds:
  "0 \<le> fold_big_endian [b1, b2, b3, b4]" "fold_big_endian [b1, b2, b3, b4] < 4294967296"
  using uint_byte_bounds [of b1] uint_byte_bounds [of b2] uint_byte_bounds [of b3]
    uint_byte_bounds [of b4]
  by (auto simp: fold_big_endian4)

lemma be4_small_iff:
  fixes a b c d :: int
  assumes "0 \<le> a" "0 \<le> b" "b < 256" "0 \<le> c" "c < 256" "0 \<le> d" "d < 256"
  shows "((a * 256 + b) * 256 + c) * 256 + d < 2147483648 \<longleftrightarrow> a < 128"
  using assms by auto

lemma fold4_small_iff:
  "fold_big_endian [b1, b2, b3, b4] < 2147483648 \<longleftrightarrow> uint b1 < 128"
  unfolding fold_big_endian4
  by (rule be4_small_iff) (simp_all add: uint_byte_bounds)

lemma ToInt32_fold4_iff:
  "ToInt32 (fold_big_endian [b1, b2, b3, b4]) = fold_big_endian [b1, b2, b3, b4] \<longleftrightarrow> uint b1 < 128"
proof (cases "uint b1 < 128")
  case True
  then have "ToInt32 (fold_big_endian [b1, b2, b3, b4]) = fold_big_endian [b1, b2, b3, b4]"
    using fold4_bounds [of b1 b2 b3 b4] fold4_small_iff [of b1 b2 b3 b4]
    by (intro ToInt32_small) auto
  with True show ?thesis by simp
next
  case False
  then have "ToInt32 (fold_big_endian [b1, b2, b3, b4]) = fold_big_endian [b1, b2, b3, b4] - 4294967296"
    using fold4_bounds [of b1 b2 b3 b4] fold4_small_iff [of b1 b2 b3 b4]
    by (intro ToInt32_high) auto
  with False show ?thesis by simp
qed

text \<open>
  Claim C7, as the code has it. On a buffer holding \<open>b1 b2 b3 b4\<close> at the read
  position, \<open>readLong\<close> advances the position by exactly 4 and returns the big-endian
  composition as JavaScript's 32-bit shifts compute it: the value of the fold
  \<open>sum = sum * 256 + nextByte\<close> reduced to a signed 32-bit integer. That value is
  the fold's own exactly when \<open>b1 < 0x80\<close>. \<open>readShort\<close> and \<open>read3Bytes\<close> return
  the fold over their 2 and 3 bytes for all bytes, and advance by 2 and 3.
\<close>

theorem readLong_signed_big_endian:
  "PullStream_readLong (positioned pre (b1 # b2 # b3 # b4 # rest)) =
     (Inr (Some (ToInt32 (fold_big_endian [b1, b2, b3, b4]))),
      (positioned pre (b1 # b2 # b3 # b4 # rest))\<lparr>position := int (length pre) + 4\<rparr>)
   \<and> (ToInt32 (fold_big_endian [b1, b2, b3, b4]) = fold_big_endian [b1, b2, b3, b4]) =
       (uint b1 < 128)
   \<and> PullStream_readShort (positioned pre (b1 # b2 # rest)) =
     (Inr (Some (fold_big_endian [b1, b2])),
      (positioned pre (b1 # b2 # rest))\<lparr>position := int (length pre) + 2\<rparr>)
   \<and> PullStream_read3Bytes (positioned pre (b1 # b2 # b3 # rest)) =
     (Inr (Some (fold_big_endian [b1, b2, b3])),
      (positioned pre (b1 # b2 # b3 # rest))\<lparr>position := int (length pre) + 3\<rparr>)"
  using readLong_positioned [of pre b1 b2 b3 b4 rest] ToInt32_fold4_iff [of b1 b2 b3 b4]
    readShort_positioned [of pre b1 b2 rest] read3Bytes_positioned [of pre b1 b2 b3 rest]
  by blast

text \<open>
  Claim C7, as stated, fails when the first byte has its high bit set: on the bytes
  \<open>80 00 00 00\<close> \<open>readLong\<close> returns \<open>-2147483648\<close>, and the fold is
  \<open>2147483648\<close>.
\<close>

theorem readLong_high_bit_counterexample:
  "PullStream_readLong (fromFile [0x80, 0, 0, 0]) =
     (Inr (Some (- 2147483648)), \<lparr>buffer = [0x80, 0, 0, 0], position = 4, maxPosition = 4\<rparr>)
   \<and> fold_big_endian [0x80, 0, 0, 0] = 2147483648
   \<and> fst (PullStream_readLong (fromFile [0x80, 0, 0, 0])) \<noteq>
       Inr (Some (fold_big_endian [0x80, 0, 0, 0]))"
proof -
  have "positioned [] [0x80, 0, 0, 0] = fromFile [0x80, 0, 0, 0]"
    by (simp add: positioned_def fromFile_def)
  moreover have "fold_big_endian [0x80, 0, 0, 0] = 2147483648"
    by (simp add: fold_big_endian_def)
  moreover have "ToInt32 2147483648 = - 2147483648"
    by (simp add: ToInt32_def)
  ultimately show ?thesis
    using readLong_positioned [of "[]" "0x80" 0 0 0 "[]"]
    by (simp add: fromFile_def)
qed

section \<open>Fixed-width reads\<close>


lemmas read_defs =
  PullStream_readByte_def PullStream_readShort_def PullStream_read3Bytes_def
  PullStream_readLong_def PullStream_readASCII3_def PullStream_readASCII4_def

lemmas Chunk_read_defs =
  Chunk_readByte_def Chunk_readShort_def Chunk_read3Bytes_def
  Chunk_readLong_def Chunk_readASCII3_def Chunk_readASCII4_def

lemma PullStream_read_short:
  "width r > maxPosition s - position s \<Longrightarrow>
   PullStream_read r s =
     (Inl (Exception_fields (position s) (maxPosition s) (width r)
            ''Short read (stream end boundary reached)''), s)"
  by (cases r) (simp_all add: as_number_def as_string_def read_defs PullStream_ensureCapacity_def)

lemma PullStream_read_ok:
  "width r \<le> maxPosition s - position s \<Longrightarrow>
   \<exists>v. PullStream_read r s = (Inr v, s\<lparr>position := position s + width r\<rparr>)"
  by (cases r) (simp_all add: as_number_def as_string_def read_defs PullStream_ensureCapacity_def)

lemma Chunk_read_short:
  "width r > chunkMaxPosition c - position s \<Longrightarrow>
   Chunk_read r c s =
     (Inl (Exception_fields (position s) (chunkMaxPosition c) (width r)
            ''Short read (chunk end boundary reached)''), s)"
  by (cases r) (simp_all add: as_number_def as_string_def Chunk_read_defs Chunk_ensureCapacity_def)

lemma Chunk_read_delegates:
  "width r \<le> chunkMaxPosition c - position s \<Longrightarrow> Chunk_read r c s = PullStream_read r s"
  by (cases r) (simp_all add: as_number_def as_string_def Chunk_read_defs Chunk_ensureCapacity_def)

lemma readString88591_loop_state:
  "readString88591_loop c str s = (str', s') \<Longrightarrow>
   s' = s\<lparr>position := max (position s) (chunkMaxPosition c)\<rparr>"
proof (induction c str s rule: readString88591_loop.induct)
  case (1 that str stream)
  show ?case
  proof (cases "chunkMaxPosition that - position stream > 0")
    case True
    with "1.prems" have "readString88591_loop that
        (str @ [fromCharCode (buffer_at (buffer stream) (position stream))])
        (stream\<lparr>position := position stream + 1\<rparr>) = (str', s')"
      by (subst (asm) readString88591_loop.simps) (simp add: Let_def)
    from "1.IH" [OF True refl refl this] True show ?thesis
      by (simp add: max_def)
  next
    case False
    with "1.prems" show ?thesis
      by (subst (asm) readString88591_loop.simps) (simp add: max_def)
  qed
qed

lemma readString88591_loop_string:
  "readString88591_loop c str s = (str', s') \<Longrightarrow>
   str' = str @ map (\<lambda>i. fromCharCode (buffer_at (buffer s) i)) [position s..chunkMaxPosition c - 1]"
proof (induction c str s rule: readString88591_loop.induct)
  case (1 that str stream)
  show ?case
  proof (cases "chunkMaxPosition that - position stream > 0")
    case True
    with "1.prems" have "readString88591_loop that
        (str @ [fromCharCode (buffer_at (buffer stream) (position stream))])
        (stream\<lparr>position := position stream + 1\<rparr>) = (str', s')"
      by (subst (asm) readString88591_loop.simps) (simp add: Let_def)
    from "1.IH" [OF True refl refl this] True show ?thesis
      by (subst upto.simps) simp
  next
    case False
    with "1.prems" show ?thesis
      by (subst (asm) readString88591_loop.simps) simp
  qed
qed

lemma readZString88591_loop_state:
  "readZString88591_loop c str s = ((found, str'), s') \<Longrightarrow>
   (\<exists>p. s' = s\<lparr>position := p\<rparr> \<and> position s \<le> p \<and> p \<le> max (position s) (chunkMaxPosition c)
        \<and> (\<not> found \<longrightarrow> p = max (position s) (chunkMaxPosition c)))"
proof (induction c str s rule: readZString88591_loop.induct)
  case (1 that str stream)
  show ?case
  proof (cases "chunkMaxPosition that - position stream > 0")
    case True
    note pos = this
    show ?thesis
    proof (cases "buffer_at (buffer stream) (position stream) = Some 0")
      case True
      with pos "1.prems" show ?thesis
        by (subst (asm) readZString88591_loop.simps) (auto simp: Let_def max_def)
    next
      case False
      with pos "1.prems" have "readZString88591_loop that
          (str @ [fromCharCode (buffer_at (buffer stream) (position stream))])
          (stream\<lparr>position := position stream + 1\<rparr>) = ((found, str'), s')"
        by (subst (asm) readZString88591_loop.simps) (simp add: Let_def)
      from "1.IH" [OF pos refl refl False this] pos show ?thesis
        by (auto simp: max_def)
    qed
  next
    case False
    with "1.prems" show ?thesis
      by (subst (asm) readZString88591_loop.simps) (auto simp: max_def)
  qed
qed

lemma readZStringUTF8_loop_state:
  "readZStringUTF8_loop c s = (found, s') \<Longrightarrow>
   (\<exists>p. s' = s\<lparr>position := p\<rparr> \<and> position s \<le> p \<and> p \<le> max (position s) (chunkMaxPosition c)
        \<and> (\<not> found \<longrightarrow> p = max (position s) (chunkMaxPosition c)))"
proof (induction c s rule: readZStringUTF8_loop.induct)
  case (1 that stream)
  show ?case
  proof (cases "chunkMaxPosition that - position stream \<ge> 1")
    case True
    note pos = this
    show ?thesis
    proof (cases "buffer_at (buffer stream) (position stream) = Some 0")
      case True
      with pos "1.prems" show ?thesis
        by (subst (asm) readZStringUTF8_loop.simps) (auto simp: Let_def max_def)
    next
      case False
      with pos "1.prems" have "readZStringUTF8_loop that
          (stream\<lparr>position := position stream + 1\<rparr>) = (found, s')"
        by (subst (asm) readZStringUTF8_loop.simps) (simp add: Let_def)
      from "1.IH" [OF pos refl refl False this] pos show ?thesis
        by (auto simp: max_def)
    qed
  next
    case False
    with "1.prems" show ?thesis
      by (subst (asm) readZStringUTF8_loop.simps) (auto simp: max_def)
  qed
qed

lemma length_buffer_put [simp]: "length (buffer_put buf i v) = length buf"
  by (simp add: buffer_put_def)

lemma malformedBOM_frame:
  "malformedBOM b1 b2 st = (c1, c2, st') \<Longrightarrow>
   position st' = position st \<and> maxPosition st' = maxPosition st \<and>
   length (buffer st') = length (buffer st)"
  by (auto simp: malformedBOM_def Let_def split: if_splits)

lemma readZStringUTF16_loop_state:
  "readZStringUTF16_loop c from be s = (r, s') \<Longrightarrow>
   position s \<le> position s' \<and> position s' \<le> max (position s) (chunkMaxPosition c) \<and>
   maxPosition s' = maxPosition s \<and> length (buffer s') = length (buffer s) \<and>
   (\<forall>x. r = Inr x \<longrightarrow> chunkMaxPosition c - position s' \<le> 1)"
proof (induction c "from" be s rule: readZStringUTF16_loop.induct)
  case (1 that "from" bigEndian stream)
  show ?case
  proof (cases "chunkMaxPosition that - position stream > 1")
    case False
    with "1.prems" show ?thesis
      by (subst (asm) readZStringUTF16_loop.simps) (auto simp: max_def)
  next
    case True
    obtain b1 b2 st where m: "malformedBOM (buffer_at (buffer stream) (position stream))
        (buffer_at (buffer stream) (position stream + 1))
        (stream\<lparr>position := position stream + 2\<rparr>) = (b1, b2, st)"
      by (metis prod_cases3)
    from malformedBOM_frame [OF m]
    have st: "position st = position stream + 2" "maxPosition st = maxPosition stream"
      "length (buffer st) = length (buffer stream)"
      by simp_all
    note IH = "1.IH" [OF True m [symmetric] refl]
    from "1.prems" True m
    have step: "(if b1 = Some 0xFF \<and> b2 = Some 0xFE
               then readZStringUTF16_loop that (from + 2) bigEndian st
             else if b1 = Some 0xFE \<and> b2 = Some 0xFF
               then readZStringUTF16_loop that (from + 2) True st
             else if b1 = Some 0x00 \<and> b2 = Some 0x00
               then (Inl (ucs2 (buffer st) from (position st - 2) False), st)
             else if bigEndian
               then readZStringUTF16_loop that from bigEndian
                      (st\<lparr>buffer :=
                         buffer_put (buffer_put (buffer st) (position st - 2) b2)
                           (position st - 1) b1\<rparr>)
             else readZStringUTF16_loop that from bigEndian st) = (r, s')"
      by (subst (asm) readZStringUTF16_loop.simps) simp
    show ?thesis
    proof (cases "b1 = Some 0xFF \<and> b2 = Some 0xFE")
      case A: True
      with step have "readZStringUTF16_loop that (from + 2) bigEndian st = (r, s')" by simp
      from IH(1) [OF A this] st True show ?thesis by (auto simp: max_def)
    next
      case A: False
      show ?thesis
      proof (cases "b1 = Some 0xFE \<and> b2 = Some 0xFF")
        case B: True
        with A step have "readZStringUTF16_loop that (from + 2) True st = (r, s')" by simp
        from IH(2) [OF A B this] st True show ?thesis by (auto simp: max_def)
      next
        case B: False
        show ?thesis
        proof (cases "b1 = Some 0x00 \<and> b2 = Some 0x00")
          case C: True
          with A B step have "r = Inl (ucs2 (buffer st) from (position st - 2) False)" "s' = st"
            by (auto split: if_splits)
          with st True show ?thesis by (auto simp: max_def)
        next
          case C: False
          show ?thesis
          proof (cases bigEndian)
            case D: True
            with A B C step have "readZStringUTF16_loop that from bigEndian
                      (st\<lparr>buffer :=
                         buffer_put (buffer_put (buffer st) (position st - 2) b2)
                           (position st - 1) b1\<rparr>) = (r, s')" by (auto split: if_splits)
            from IH(3) [OF A B C D this] st True show ?thesis by (auto simp: max_def)
          next
            case D: False
            with A B C step have "readZStringUTF16_loop that from bigEndian st = (r, s')" by (auto split: if_splits)
            from IH(4) [OF A B C D this] st True show ?thesis by (auto simp: max_def)
          qed
        qed
      qed
    qed
  qed
qed

lemma scan3Bytes_loop_state:
  "scan3Bytes_loop e m s = (r, s') \<Longrightarrow>
   buffer s' = buffer s \<and> maxPosition s' = maxPosition s \<and> position s \<le> position s' \<and>
   position s' \<le> max (position s) (maxPosition s)"
proof (induction e m s rule: scan3Bytes_loop.induct)
  case (1 expected magic that)
  show ?case
  proof (cases "PullStream_hasMore that None")
    case False
    with "1.prems" show ?thesis
      by (subst (asm) scan3Bytes_loop.simps) (auto simp: max_def)
  next
    case True
    then have rb: "PullStream_readByte that =
        (Inr (buffer_at (buffer that) (position that)), that\<lparr>position := position that + 1\<rparr>)"
      and room: "position that + 1 \<le> maxPosition that"
      by (auto simp: PullStream_hasMore_def PullStream_readByte_def PullStream_ensureCapacity_def
            split: if_splits)
    define magic' where "magic' = js_add (js_shl (js_and magic 0xFFFF) 8) (buffer_at (buffer that) (position that))"
    show ?thesis
    proof (cases "magic' = Some expected")
      case True
      with "1.prems" \<open>PullStream_hasMore that None\<close> rb room show ?thesis
        by (subst (asm) scan3Bytes_loop.simps) (auto simp: Let_def magic'_def max_def)
    next
      case False
      with "1.prems" \<open>PullStream_hasMore that None\<close> rb
      have "scan3Bytes_loop expected magic' (that\<lparr>position := position that + 1\<rparr>) = (r, s')"
        by (subst (asm) scan3Bytes_loop.simps) (auto simp: Let_def magic'_def)
      from "1.IH" [OF \<open>PullStream_hasMore that None\<close> rb [symmetric] refl refl False [unfolded magic'_def] this [unfolded magic'_def]] room
      show ?thesis
        by (auto simp: max_def)
    qed
  qed
qed

lemma scanLong_loop_state:
  "scanLong_loop e m s = (r, s') \<Longrightarrow>
   buffer s' = buffer s \<and> maxPosition s' = maxPosition s \<and> position s \<le> position s' \<and>
   position s' \<le> max (position s) (maxPosition s)"
proof (induction e m s rule: scanLong_loop.induct)
  case (1 expected magic that)
  show ?case
  proof (cases "PullStream_hasMore that None")
    case False
    with "1.prems" show ?thesis
      by (subst (asm) scanLong_loop.simps) (auto simp: max_def)
  next
    case True
    then have rb: "PullStream_readByte that =
        (Inr (buffer_at (buffer that) (position that)), that\<lparr>position := position that + 1\<rparr>)"
      and room: "position that + 1 \<le> maxPosition that"
      by (auto simp: PullStream_hasMore_def PullStream_readByte_def PullStream_ensureCapacity_def
            split: if_splits)
    define magic' where "magic' = js_add (js_shl (js_and magic 0xFFFFFF) 8) (buffer_at (buffer that) (position that))"
    show ?thesis
    proof (cases "magic' = Some expected")
      case True
      with "1.prems" \<open>PullStream_hasMore that None\<close> rb room show ?thesis
        by (subst (asm) scanLong_loop.simps) (auto simp: Let_def magic'_def max_def)
    next
      case False
      with "1.prems" \<open>PullStream_hasMore that None\<close> rb
      have "scanLong_loop expected magic' (that\<lparr>position := position that + 1\<rparr>) = (r, s')"
        by (subst (asm) scanLong_loop.simps) (auto simp: Let_def magic'_def)
      from "1.IH" [OF \<open>PullStream_hasMore that None\<close> rb [symmetric] refl refl False [unfolded magic'_def] this [unfolded magic'_def]] room
      show ?thesis
        by (auto simp: max_def)
    qed
  qed
qed

section \<open>The position under sequences of calls\<close>

lemma moved_within_refl [simp]: "moved_within s s b"
  by (simp add: moved_within_def)

lemma moved_skip: "moved_within s (snd (PullStream_skip s n)) (maxPosition s)"
  by (auto simp: moved_within_def PullStream_skip_def PullStream_ensureCapacity_def Let_def)

lemma moved_read: "moved_within s (snd (PullStream_read r s)) (maxPosition s)"
proof (cases "width r \<le> maxPosition s - position s")
  case True
  have "0 < width r" by (cases r) simp_all
  with True PullStream_read_ok [OF True] show ?thesis
    by (auto simp: moved_within_def)
next
  case False
  then show ?thesis
    by (simp add: PullStream_read_short)
qed

lemma moved_scan3Bytes: "moved_within s (snd (PullStream_scan3Bytes s e)) (maxPosition s)"
proof -
  obtain r s' where "scan3Bytes_loop e (Some 0) s = (r, s')"
    by (cases "scan3Bytes_loop e (Some 0) s")
  with scan3Bytes_loop_state [OF this] show ?thesis
    by (auto simp: PullStream_scan3Bytes_def moved_within_def)
qed

lemma moved_scanLong: "moved_within s (snd (PullStream_scanLong s e)) (maxPosition s)"
proof -
  obtain r s' where "scanLong_loop e (Some 0) s = (r, s')"
    by (cases "scanLong_loop e (Some 0) s")
  with scanLong_loop_state [OF this] show ?thesis
    by (auto simp: PullStream_scanLong_def moved_within_def)
qed

lemma moved_Chunk_skip: "moved_within s (snd (Chunk_skip c s n)) (maxPosition s)"
  using moved_skip [of s]
  by (auto simp: Chunk_skip_def Chunk_ensureCapacity_def Let_def split: option.splits)

lemma moved_Chunk_read: "moved_within s (snd (Chunk_read r c s)) (maxPosition s)"
proof (cases "width r \<le> chunkMaxPosition c - position s")
  case True
  then show ?thesis
    by (simp add: Chunk_read_delegates moved_read)
next
  case False
  then show ?thesis
    by (simp add: Chunk_read_short)
qed

lemma moved_readZString88591:
  "moved_within s (snd (Chunk_readZString88591 c s a)) (chunkMaxPosition c)"
proof -
  obtain found str s' where l: "readZString88591_loop c [] s = ((found, str), s')"
    by (metis prod.exhaust)
  from readZString88591_loop_state [OF l] have "moved_within s s' (chunkMaxPosition c)"
    by (auto simp: moved_within_def)
  with l show ?thesis
    by (simp add: Chunk_readZString88591_def split: bool.splits)
qed

lemma moved_readZStringUTF8:
  "moved_within s (snd (Chunk_readZStringUTF8 utf8 c s a)) (chunkMaxPosition c)"
proof -
  obtain found s' where l: "readZStringUTF8_loop c s = (found, s')"
    by (metis prod.exhaust)
  from readZStringUTF8_loop_state [OF l] have "moved_within s s' (chunkMaxPosition c)"
    by (auto simp: moved_within_def)
  with l show ?thesis
    by (simp add: Chunk_readZStringUTF8_def Let_def split: bool.splits)
qed

lemma moved_readZStringUTF16:
  "moved_within s (snd (Chunk_readZStringUTF16 c s a)) (chunkMaxPosition c)"
proof -
  obtain r s' where l: "readZStringUTF16_loop c (position s) False s = (r, s')"
    by (metis prod.exhaust)
  from readZStringUTF16_loop_state [OF l] have "moved_within s s' (chunkMaxPosition c)"
    by (auto simp: moved_within_def)
  with l show ?thesis
    by (simp add: Chunk_readZStringUTF16_def split: sum.splits prod.splits)
qed

lemma moved_readString88591:
  "moved_within s (snd (Chunk_readString88591 c s)) (chunkMaxPosition c)"
proof -
  obtain str s' where l: "readString88591_loop c [] s = (str, s')"
    by (metis prod.exhaust)
  from readString88591_loop_state [OF l] have "moved_within s s' (chunkMaxPosition c)"
    by (auto simp: moved_within_def)
  with l show ?thesis
    by (simp add: Chunk_readString88591_def)
qed

lemma moved_unchanged [simp]:
  "snd (Chunk_readStringUTF8 utf8 c s) = s"
  "snd (Chunk_readStringUTF16 c s) = s"
  "snd (Chunk_readBuffer c s) = s"
  by (simp_all add: Chunk_readStringUTF8_def Chunk_readStringUTF16_def Chunk_readBuffer_def)

lemma moved_within_weaken:
  "moved_within s s' b \<Longrightarrow> moved_within s s' (max b b')"
  by (auto simp: moved_within_def)

lemma cursor_inv_moved:
  "cursor_inv s \<Longrightarrow> moved_within s s' b \<Longrightarrow> b \<le> maxPosition s \<Longrightarrow> cursor_inv s'"
  by (auto simp: cursor_inv_def moved_within_def)

lemma call_moves:
  "\<exists>b. moved_within (stream w) (stream (call utf8 c w)) b"
proof (cases c)
  case (S_skip n) then show ?thesis using moved_skip by auto
next
  case (S_read r) then show ?thesis using moved_read by auto
next
  case (S_scan3Bytes e) then show ?thesis using moved_scan3Bytes by auto
next
  case (S_scanLong e) then show ?thesis using moved_scanLong by auto
next
  case (C_skip i n) then show ?thesis using moved_Chunk_skip by (auto simp: on_chunk_def)
next
  case (C_read i r) then show ?thesis using moved_Chunk_read by (auto simp: on_chunk_def)
next
  case (C_readZString88591 i a) then show ?thesis using moved_readZString88591 by (auto simp: on_chunk_def)
next
  case (C_readZStringUTF16 i a) then show ?thesis using moved_readZStringUTF16 by (auto simp: on_chunk_def)
next
  case (C_readZStringUTF8 i a) then show ?thesis
    using moved_readZStringUTF8 [of "stream w" utf8 "chunks w ! i" a] by (auto simp: on_chunk_def)
next
  case (C_readString88591 i) then show ?thesis using moved_readString88591 by (auto simp: on_chunk_def)
qed (auto simp: on_chunk_def)

lemma call_maxPosition [simp]:
  "maxPosition (stream (call utf8 c w)) = maxPosition (stream w)"
  using call_moves [of w utf8 c] by (auto simp: moved_within_def)

lemma call_cursor_inv:
  assumes "cursor_inv (stream w)" "call_within w c"
  shows "cursor_inv (stream (call utf8 c w))"
proof (cases c)
  case (S_skip n) with assms(1) show ?thesis using cursor_inv_moved [OF _ moved_skip] by auto
next
  case (S_read r) with assms(1) show ?thesis using cursor_inv_moved [OF _ moved_read] by auto
next
  case (S_scan3Bytes e) with assms(1) show ?thesis using cursor_inv_moved [OF _ moved_scan3Bytes] by auto
next
  case (S_scanLong e) with assms(1) show ?thesis using cursor_inv_moved [OF _ moved_scanLong] by auto
next
  case (C_skip i n) with assms(1) show ?thesis
    using cursor_inv_moved [OF _ moved_Chunk_skip] by (auto simp: on_chunk_def)
next
  case (C_read i r) with assms(1) show ?thesis
    using cursor_inv_moved [OF _ moved_Chunk_read] by (auto simp: on_chunk_def)
next
  case (C_readZString88591 i a) with assms show ?thesis
    using cursor_inv_moved [OF _ moved_readZString88591]
    by (auto simp: on_chunk_def call_within_def)
next
  case (C_readZStringUTF16 i a) with assms show ?thesis
    using cursor_inv_moved [OF _ moved_readZStringUTF16]
    by (auto simp: on_chunk_def call_within_def)
next
  case (C_readZStringUTF8 i a) with assms show ?thesis
    using cursor_inv_moved [OF _ moved_readZStringUTF8]
    by (auto simp: on_chunk_def call_within_def)
next
  case (C_readString88591 i) with assms show ?thesis
    using cursor_inv_moved [OF _ moved_readString88591]
    by (auto simp: on_chunk_def call_within_def)
qed (use assms(1) in \<open>auto simp: on_chunk_def\<close>)

lemma calls_cursor_inv:
  "cursor_inv (stream w) \<Longrightarrow> calls_within utf8 cs w \<Longrightarrow> cursor_inv (stream (calls utf8 cs w))"
  by (induction cs arbitrary: w) (auto intro: call_cursor_inv)

lemma cursor_inv_populate: "cursor_inv (stream (populate data))"
  by (simp add: cursor_inv_def populate_def fromFile_def)

lemma calls_maxPosition [simp]:
  "maxPosition (stream (calls utf8 cs w)) = maxPosition (stream w)"
  by (induction cs arbitrary: w) simp_all

text \<open>
  Where the position is kept inside the buffer. After \<open>fromFile\<close>, under every
  sequence of calls on the stream and on the chunks made from it, the position stays
  within \<open>0 \<le> position \<le> length\<close> as long as each call of \<open>readZString88591\<close>,
  \<open>readZStringUTF8\<close>, \<open>readZStringUTF16\<close> or \<open>readString88591\<close> is issued on a
  chunk whose \<open>maxPosition\<close> is at most the buffer's length. Every other call that
  moves the position goes through the stream's \<open>ensureCapacity\<close>.
\<close>

lemma position_within_length:
  "calls_within utf8 cs (populate data) \<Longrightarrow>
   0 \<le> position (stream (calls utf8 cs (populate data))) \<and>
   position (stream (calls utf8 cs (populate data))) \<le> int (length data) \<and>
   int (length (buffer (stream (calls utf8 cs (populate data))))) = int (length data)"
proof -
  assume "calls_within utf8 cs (populate data)"
  then have "cursor_inv (stream (calls utf8 cs (populate data)))"
    by (rule calls_cursor_inv [OF cursor_inv_populate])
  moreover have "maxPosition (stream (calls utf8 cs (populate data))) = int (length data)"
    by (simp add: populate_def fromFile_def)
  ultimately show ?thesis
    by (simp add: cursor_inv_def)
qed

text \<open>
  Claim C1 on a file of one byte, \<open>41\<close>, and a chunk made with length 3 (its
  \<open>maxPosition\<close> is 3, the buffer's length 1). The four string readers loop on the
  chunk's \<open>maxPosition\<close> and advance the stream's position themselves, without the
  stream's \<open>ensureCapacity\<close>: \<open>readString88591\<close> and \<open>readZString88591(true)\<close>
  read \<open>buffer[1]\<close> and \<open>buffer[2]\<close>, which are \<open>undefined\<close>, return the
  string \<open>41 00 00\<close> and leave the position at 3; \<open>readZStringUTF8(true)\<close> leaves
  it at 3 and \<open>readZStringUTF16(true)\<close> at 2. Through the same chunk \<open>readBuffer\<close>
  returns the one byte there is, and \<open>readShort\<close> and \<open>skip()\<close> throw the stream's
  short-read exception and leave the position at 0.
\<close>

theorem string_reads_past_end:
  "Chunk_readString88591 (PullStream_chunk (fromFile [0x41]) ''c'' (Some 3)) (fromFile [0x41]) =
     (Inr [0x41, 0, 0], \<lparr>buffer = [0x41], position = 3, maxPosition = 1\<rparr>) \<and>
   Chunk_readZString88591 (PullStream_chunk (fromFile [0x41]) ''c'' (Some 3)) (fromFile [0x41]) True =
     (Inr [0x41, 0, 0], \<lparr>buffer = [0x41], position = 3, maxPosition = 1\<rparr>) \<and>
   snd (Chunk_readZStringUTF8 (map ucast) (PullStream_chunk (fromFile [0x41]) ''c'' (Some 3))
          (fromFile [0x41]) True) =
     \<lparr>buffer = [0x41], position = 3, maxPosition = 1\<rparr> \<and>
   snd (Chunk_readZStringUTF16 (PullStream_chunk (fromFile [0x41]) ''c'' (Some 3))
          (fromFile [0x41]) True) =
     \<lparr>buffer = [0x41], position = 2, maxPosition = 1\<rparr> \<and>
   position (stream (calls (map ucast) [S_chunk ''c'' (Some 3), C_readString88591 0]
       (populate [0x41]))) = 3 \<and>
   Chunk_readBuffer (PullStream_chunk (fromFile [0x41]) ''c'' (Some 3)) (fromFile [0x41]) =
     (Inr [0x41], fromFile [0x41]) \<and>
   Chunk_readShort (PullStream_chunk (fromFile [0x41]) ''c'' (Some 3)) (fromFile [0x41]) =
     (Inl (Exception_fields 0 1 2 ''Short read (stream end boundary reached)''), fromFile [0x41]) \<and>
   Chunk_skip (PullStream_chunk (fromFile [0x41]) ''c'' (Some 3)) (fromFile [0x41]) None =
     (Inl (Exception_fields 0 1 3 ''Short read (stream end boundary reached)''), fromFile [0x41])"
  by code_simp


lemma call_chunks_within:
  assumes "chunks_within w" "call_fits w c"
  shows "chunks_within (call utf8 c w)"
proof -
  have "\<forall>x \<in> set (chunks (call utf8 c w)). chunkMaxPosition x \<le> maxPosition (stream w)"
  proof (cases c)
    case (S_chunk nm len)
    with assms show ?thesis
      by (cases len) (auto simp: chunks_within_def PullStream_chunk_def newChunk_def)
  next
    case (C_chunk i nm len)
    with assms show ?thesis
      by (cases len) (auto simp: chunks_within_def Chunk_chunk_def newChunk_def)
  next
    case (C_extend i n)
    with assms show ?thesis
      by (auto simp: chunks_within_def Chunk_extend_def
            dest!: set_update_subset_insert [THEN subsetD])
  qed (use assms(1) in \<open>auto simp: on_chunk_def chunks_within_def\<close>)
  then show ?thesis
    by (simp add: chunks_within_def)
qed

lemma calls_chunks_within:
  "chunks_within w \<Longrightarrow> calls_fit utf8 cs w \<Longrightarrow> chunks_within (calls utf8 cs w)"
  by (induction cs arbitrary: w) (auto intro: call_chunks_within)

lemma call_not_fits:
  assumes "\<not> call_fits w c"
  shows "\<not> chunks_within (call utf8 c w)"
proof (cases c)
  case (S_chunk nm len)
  with assms obtain k where "len = Some k" "\<not> position (stream w) + k \<le> maxPosition (stream w)"
    by (cases len) auto
  with S_chunk show ?thesis
    by (auto simp: chunks_within_def PullStream_chunk_def newChunk_def)
next
  case (C_chunk i nm len)
  with assms obtain k where "len = Some k" "i < length (chunks w)"
    "\<not> position (stream w) + k \<le> maxPosition (stream w)"
    by (cases len) auto
  with C_chunk show ?thesis
    by (auto simp: chunks_within_def Chunk_chunk_def newChunk_def)
next
  case (C_extend i n)
  with assms have i: "i < length (chunks w)" "chunkMaxPosition (chunks w ! i) \<noteq> 0"
    "\<not> chunkMaxPosition (chunks w ! i) + n \<le> maxPosition (stream w)"
    by auto
  then have "Chunk_extend (chunks w ! i) n \<in> set ((chunks w)[i := Chunk_extend (chunks w ! i) n])"
    by (simp add: set_update_memI)
  moreover from i have "\<not> chunkMaxPosition (Chunk_extend (chunks w ! i) n) \<le> maxPosition (stream w)"
    by (simp add: Chunk_extend_def)
  ultimately show ?thesis
    using C_extend i(1) by (auto simp: chunks_within_def)
qed (use assms in auto)

lemma within_throughout_start: "within_throughout utf8 cs w \<Longrightarrow> chunks_within w"
  by (cases cs) simp_all

lemma within_throughout_iff:
  "chunks_within w \<Longrightarrow> within_throughout utf8 cs w = calls_fit utf8 cs w"
proof (induction cs arbitrary: w)
  case Nil
  then show ?case by simp
next
  case (Cons c cs)
  show ?case
  proof (cases "call_fits w c")
    case True
    with Cons.prems have "chunks_within (call utf8 c w)"
      by (intro call_chunks_within)
    from Cons.IH [OF this] True Cons.prems show ?thesis
      by simp
  next
    case False
    then have "\<not> chunks_within (call utf8 c w)"
      by (rule call_not_fits)
    then have "\<not> within_throughout utf8 cs (call utf8 c w)"
      using within_throughout_start by blast
    with False show ?thesis
      by simp
  qed
qed

lemma within_throughout_end: "within_throughout utf8 cs w \<Longrightarrow> chunks_within (calls utf8 cs w)"
  by (induction cs arbitrary: w) simp_all

text \<open>
  Claim C3, as the code has it. A chunk made without a length has the stream's
  \<open>maxPosition\<close> as its own. A chunk made with a length \<open>k\<close>, from the stream or from
  a chunk, has \<open>position + k\<close>, whatever the buffer's length: it is within the length
  exactly when \<open>k\<close> is at most the number of bytes left. \<open>extend(n)\<close> adds \<open>n\<close> to
  a \<open>maxPosition\<close> that is not 0, so that the chunk stays within the length exactly when
  \<open>n\<close> is at most what separates it from the length, and leaves a \<open>maxPosition\<close> of 0
  as it is. Hence, from a state in which every chunk is within the length, every chunk
  is within the length after each call of a sequence exactly when every chunk made
  with a length and every extension in the sequence fits in the buffer: a call that
  does not fit leaves a chunk beyond the length.
\<close>

theorem upperBound_within_length:
  "chunkMaxPosition (PullStream_chunk s nm None) = maxPosition s \<and>
   chunkMaxPosition (Chunk_chunk parent s nm None) = maxPosition s \<and>
   chunkMaxPosition (PullStream_chunk s nm (Some k)) = position s + k \<and>
   chunkMaxPosition (Chunk_chunk parent s nm (Some k)) = position s + k \<and>
   (chunkMaxPosition (PullStream_chunk s nm (Some k)) \<le> maxPosition s) =
     (k \<le> maxPosition s - position s) \<and>
   (chunkMaxPosition (Chunk_chunk parent s nm (Some k)) \<le> maxPosition s) =
     (k \<le> maxPosition s - position s) \<and>
   (chunkMaxPosition c \<noteq> 0 \<longrightarrow>
      Chunk_extend c n = c\<lparr>chunkMaxPosition := chunkMaxPosition c + n\<rparr> \<and>
      (chunkMaxPosition (Chunk_extend c n) \<le> maxPosition s) =
        (n \<le> maxPosition s - chunkMaxPosition c)) \<and>
   (chunkMaxPosition c = 0 \<longrightarrow> Chunk_extend c n = c) \<and>
   (chunks_within w \<longrightarrow>
      within_throughout utf8 cs w = calls_fit utf8 cs w \<and>
      (calls_fit utf8 cs w \<longrightarrow> chunks_within (calls utf8 cs w)) \<and>
      (\<not> call_fits w cl \<longrightarrow> \<not> chunks_within (call utf8 cl w)))"
proof -
  have "chunks_within w \<Longrightarrow> calls_fit utf8 cs w \<Longrightarrow> chunks_within (calls utf8 cs w)"
    by (rule calls_chunks_within)
  moreover have "chunks_within w \<Longrightarrow> within_throughout utf8 cs w = calls_fit utf8 cs w"
    by (rule within_throughout_iff)
  moreover have "\<not> call_fits w cl \<Longrightarrow> \<not> chunks_within (call utf8 cl w)"
    by (rule call_not_fits)
  moreover have "chunkMaxPosition c \<noteq> 0 \<Longrightarrow>
      Chunk_extend c n = c\<lparr>chunkMaxPosition := chunkMaxPosition c + n\<rparr> \<and>
      (chunkMaxPosition (Chunk_extend c n) \<le> maxPosition s) =
        (n \<le> maxPosition s - chunkMaxPosition c)"
    by (auto simp: Chunk_extend_def)
  moreover have "chunkMaxPosition c = 0 \<Longrightarrow> Chunk_extend c n = c"
    by (simp add: Chunk_extend_def)
  moreover have "chunkMaxPosition (PullStream_chunk s nm None) = maxPosition s"
    "chunkMaxPosition (Chunk_chunk parent s nm None) = maxPosition s"
    "chunkMaxPosition (PullStream_chunk s nm (Some k)) = position s + k"
    "chunkMaxPosition (Chunk_chunk parent s nm (Some k)) = position s + k"
    "(chunkMaxPosition (PullStream_chunk s nm (Some k)) \<le> maxPosition s) =
     (k \<le> maxPosition s - position s)"
    "(chunkMaxPosition (Chunk_chunk parent s nm (Some k)) \<le> maxPosition s) =
     (k \<le> maxPosition s - position s)"
    by (auto simp: PullStream_chunk_def Chunk_chunk_def newChunk_def)
  ultimately show ?thesis
    by blast
qed

theorem upperBound_within_length_witness:
  "chunkMaxPosition \<lparr>name = ''a'', chunkMaxPosition = 5\<rparr> \<noteq> 0 \<and>
   Chunk_extend \<lparr>name = ''a'', chunkMaxPosition = 5\<rparr> 3 = \<lparr>name = ''a'', chunkMaxPosition = 8\<rparr> \<and>
   chunkMaxPosition \<lparr>name = ''z'', chunkMaxPosition = 0\<rparr> = 0 \<and>
   Chunk_extend \<lparr>name = ''z'', chunkMaxPosition = 0\<rparr> 3 = \<lparr>name = ''z'', chunkMaxPosition = 0\<rparr> \<and>
   chunks_within (populate [1, 2, 3]) \<and>
   calls_fit (map ucast) [S_chunk ''a'' (Some 2), C_chunk 0 ''b'' None, S_read ReadByte,
      C_chunk 1 ''c'' (Some 1), C_extend 2 1] (populate [1, 2, 3]) \<and>
   within_throughout (map ucast) [S_chunk ''a'' (Some 2), C_chunk 0 ''b'' None, S_read ReadByte,
      C_chunk 1 ''c'' (Some 1), C_extend 2 1] (populate [1, 2, 3]) \<and>
   chunks_within (calls (map ucast) [S_chunk ''a'' (Some 2), C_chunk 0 ''b'' None, S_read ReadByte,
      C_chunk 1 ''c'' (Some 1), C_extend 2 1] (populate [1, 2, 3])) \<and>
   \<not> call_fits (populate [1, 2, 3]) (S_chunk ''x'' (Some 5)) \<and>
   \<not> chunks_within (call (map ucast) (S_chunk ''x'' (Some 5)) (populate [1, 2, 3]))"
proof -
  let ?w = "populate [1, 2, 3]"
  let ?cs = "[S_chunk ''a'' (Some 2), C_chunk 0 ''b'' None, S_read ReadByte,
      C_chunk 1 ''c'' (Some 1), C_extend 2 1]"
  let ?a = "\<lparr>name = ''a'', chunkMaxPosition = 5\<rparr>"
  let ?z = "\<lparr>name = ''z'', chunkMaxPosition = 0\<rparr>"
  have a: "chunks_within ?w"
    by (simp add: chunks_within_def populate_def)
  have b: "calls_fit (map ucast) ?cs ?w"
    by code_simp
  have n: "\<not> call_fits ?w (S_chunk ''x'' (Some 5))"
    by (simp add: populate_def fromFile_def)
  note ta = upperBound_within_length [where c = ?a and n = 3, THEN conjunct2, THEN conjunct2,
      THEN conjunct2, THEN conjunct2, THEN conjunct2, THEN conjunct2]
  note t = upperBound_within_length [where w = ?w and ?utf8.0 = "map ucast" and cs = ?cs
      and cl = "S_chunk ''x'' (Some 5)" and c = ?z and n = 3, THEN conjunct2, THEN conjunct2,
      THEN conjunct2, THEN conjunct2, THEN conjunct2, THEN conjunct2]
  have 1: "Chunk_extend ?a 3 = \<lparr>name = ''a'', chunkMaxPosition = 8\<rparr>"
    using ta [THEN conjunct1] by simp
  have 2: "Chunk_extend ?z 3 = ?z"
    using t [THEN conjunct2, THEN conjunct1] by simp
  note t3 = t [THEN conjunct2, THEN conjunct2, rule_format, OF a]
  have 3: "within_throughout (map ucast) ?cs ?w"
    using t3 [THEN conjunct1] b by simp
  have 4: "chunks_within (calls (map ucast) ?cs ?w)"
    using t3 [THEN conjunct2, THEN conjunct1] b by blast
  have 5: "\<not> chunks_within (call (map ucast) (S_chunk ''x'' (Some 5)) ?w)"
    using t3 [THEN conjunct2, THEN conjunct2] n by blast
  from 1 2 a b 3 4 n 5 show ?thesis
    by simp
qed

text \<open>
  Claim C3, as stated, fails right after construction: on a file of two bytes a chunk
  made with length 5 has \<open>maxPosition = 5\<close>.
\<close>

theorem chunk_beyond_length_counterexample:
  "\<not> chunkMaxPosition (PullStream_chunk (fromFile [1, 2]) ''c'' (Some 5)) \<le> maxPosition (fromFile [1, 2])"
  by (simp add: PullStream_chunk_def newChunk_def fromFile_def)

section \<open>Chunks and their bounds\<close>

lemma width_pos: "0 < width r"
  by (cases r) simp_all

lemma buffer_at_in_range:
  "0 \<le> i \<Longrightarrow> i < int (length buf) \<Longrightarrow> buffer_at buf i \<noteq> None"
  by (simp add: buffer_at_def)

text \<open>
  Claim C10. \<open>extend(n)\<close> adds \<open>n\<close> to a chunk's \<open>maxPosition\<close> when that is not 0
  and changes nothing when it is 0 (\<open>if (that.maxPosition)\<close> is false for 0), as for a
  chunk made with length 0 while the stream's position is 0.
\<close>

theorem extend_adds_unless_zero:
  "(chunkMaxPosition c \<noteq> 0 \<longrightarrow> Chunk_extend c n = c\<lparr>chunkMaxPosition := chunkMaxPosition c + n\<rparr>) \<and>
   (chunkMaxPosition c = 0 \<longrightarrow> Chunk_extend c n = c) \<and>
   (position s = 0 \<longrightarrow>
      chunkMaxPosition (PullStream_chunk s nm (Some 0)) = 0 \<and>
      chunkMaxPosition (Chunk_extend (PullStream_chunk s nm (Some 0)) n) = 0)"
  by (simp add: Chunk_extend_def PullStream_chunk_def newChunk_def)

theorem extend_adds_unless_zero_witness:
  "chunkMaxPosition \<lparr>name = ''a'', chunkMaxPosition = 5\<rparr> \<noteq> 0 \<and>
   Chunk_extend \<lparr>name = ''a'', chunkMaxPosition = 5\<rparr> 3 = \<lparr>name = ''a'', chunkMaxPosition = 8\<rparr> \<and>
   chunkMaxPosition \<lparr>name = ''z'', chunkMaxPosition = 0\<rparr> = 0 \<and>
   Chunk_extend \<lparr>name = ''z'', chunkMaxPosition = 0\<rparr> 3 = \<lparr>name = ''z'', chunkMaxPosition = 0\<rparr> \<and>
   position (fromFile [1, 2]) = 0 \<and>
   chunkMaxPosition (Chunk_extend (PullStream_chunk (fromFile [1, 2]) ''z'' (Some 0)) 3) = 0"
  using extend_adds_unless_zero [of "\<lparr>name = ''a'', chunkMaxPosition = 5\<rparr>" 3 "fromFile [1, 2]" "''z''"]
    extend_adds_unless_zero [of "\<lparr>name = ''z'', chunkMaxPosition = 0\<rparr>" 3 "fromFile [1, 2]" "''z''"]
  by (simp add: fromFile_def)

text \<open>
  Claim C2. A chunk made from a chunk with an explicit length \<open>k\<close> has
  \<open>maxPosition = position + k\<close>, whatever the parent's \<open>maxPosition\<close>. So a
  fixed-width read of \<open>width r\<close> bytes that goes beyond the parent's bound, and fits
  in \<open>k\<close> and in the stream, succeeds through the child and advances the position,
  where the same read through the parent throws the chunk's short-read exception.
\<close>

theorem child_not_clamped_to_parent:
  "chunkMaxPosition (Chunk_chunk parent s nm (Some k)) = position s + k \<and>
   (chunkMaxPosition parent < position s + width r \<and> width r \<le> k \<and>
    position s + width r \<le> maxPosition s \<longrightarrow>
      (\<exists>v. Chunk_read r (Chunk_chunk parent s nm (Some k)) s =
            (Inr v, s\<lparr>position := position s + width r\<rparr>)) \<and>
      Chunk_read r parent s =
        (Inl (Exception_fields (position s) (chunkMaxPosition parent) (width r)
               ''Short read (chunk end boundary reached)''), s))"
proof -
  have bound: "chunkMaxPosition (Chunk_chunk parent s nm (Some k)) = position s + k"
    by (simp add: Chunk_chunk_def newChunk_def)
  {
    assume a: "chunkMaxPosition parent < position s + width r" "width r \<le> k"
      "position s + width r \<le> maxPosition s"
    from a(2) bound have "Chunk_read r (Chunk_chunk parent s nm (Some k)) s = PullStream_read r s"
      by (intro Chunk_read_delegates) simp
    moreover from a(3) have "\<exists>v. PullStream_read r s = (Inr v, s\<lparr>position := position s + width r\<rparr>)"
      by (intro PullStream_read_ok) simp
    moreover from a(1) have "Chunk_read r parent s =
        (Inl (Exception_fields (position s) (chunkMaxPosition parent) (width r)
               ''Short read (chunk end boundary reached)''), s)"
      by (intro Chunk_read_short) simp
    ultimately have "(\<exists>v. Chunk_read r (Chunk_chunk parent s nm (Some k)) s =
            (Inr v, s\<lparr>position := position s + width r\<rparr>)) \<and>
      Chunk_read r parent s =
        (Inl (Exception_fields (position s) (chunkMaxPosition parent) (width r)
               ''Short read (chunk end boundary reached)''), s)"
      by simp
  }
  with bound show ?thesis by blast
qed

theorem child_not_clamped_to_parent_witness:
  "chunkMaxPosition \<lparr>name = ''parent'', chunkMaxPosition = 1\<rparr> < position (fromFile [1, 2, 3, 4]) + width ReadShort \<and>
   width ReadShort \<le> 3 \<and>
   position (fromFile [1, 2, 3, 4]) + width ReadShort \<le> maxPosition (fromFile [1, 2, 3, 4]) \<and>
   chunkMaxPosition (Chunk_chunk \<lparr>name = ''parent'', chunkMaxPosition = 1\<rparr> (fromFile [1, 2, 3, 4]) ''child'' (Some 3)) = 3 \<and>
   (\<exists>v. Chunk_read ReadShort
          (Chunk_chunk \<lparr>name = ''parent'', chunkMaxPosition = 1\<rparr> (fromFile [1, 2, 3, 4]) ''child'' (Some 3))
          (fromFile [1, 2, 3, 4]) =
        (Inr v, (fromFile [1, 2, 3, 4])\<lparr>position := 2\<rparr>)) \<and>
   Chunk_read ReadShort \<lparr>name = ''parent'', chunkMaxPosition = 1\<rparr> (fromFile [1, 2, 3, 4]) =
     (Inl (Exception_fields 0 1 2 ''Short read (chunk end boundary reached)''), fromFile [1, 2, 3, 4])"
  using child_not_clamped_to_parent [of "\<lparr>name = ''parent'', chunkMaxPosition = 1\<rparr>"
      "fromFile [1, 2, 3, 4]" "''child''" 3 ReadShort]
  by (simp add: fromFile_def)

text \<open>
  Claim C9. Every fixed-width read through a chunk (\<open>readByte\<close>, \<open>readShort\<close>,
  \<open>read3Bytes\<close>, \<open>readLong\<close>, \<open>readASCII3\<close>, \<open>readASCII4\<close>) checks its width
  against the chunk's \<open>maxPosition\<close> and then, in the stream's method, against the
  stream's length. On a stream read from a file: when the chunk's check fails the
  chunk's short-read exception is thrown; when it passes and the buffer has fewer bytes
  left (the chunk's \<open>maxPosition\<close> is beyond the length) the stream's is thrown; in both
  cases nothing is read. When the read returns, every index it reads is inside the
  buffer.
\<close>

theorem chunk_reads_stay_in_buffer:
  assumes "0 \<le> position s" "maxPosition s = int (length (buffer s))"
  shows "(width r > chunkMaxPosition c - position s \<longrightarrow>
            Chunk_read r c s =
              (Inl (Exception_fields (position s) (chunkMaxPosition c) (width r)
                     ''Short read (chunk end boundary reached)''), s)) \<and>
         (width r \<le> chunkMaxPosition c - position s \<and>
          width r > int (length (buffer s)) - position s \<longrightarrow>
            Chunk_read r c s =
              (Inl (Exception_fields (position s) (int (length (buffer s))) (width r)
                     ''Short read (stream end boundary reached)''), s)) \<and>
         (\<forall>v s'. Chunk_read r c s = (Inr v, s') \<longrightarrow>
            position s + width r \<le> chunkMaxPosition c \<and>
            position s + width r \<le> int (length (buffer s)) \<and>
            (\<forall>i. position s \<le> i \<and> i < position s + width r \<longrightarrow>
                   buffer_at (buffer s) i \<noteq> None) \<and>
            s' = s\<lparr>position := position s + width r\<rparr>)"
proof (intro conjI impI allI)
  assume "width r > chunkMaxPosition c - position s"
  then show "Chunk_read r c s =
              (Inl (Exception_fields (position s) (chunkMaxPosition c) (width r)
                     ''Short read (chunk end boundary reached)''), s)"
    by (rule Chunk_read_short)
next
  assume a: "width r \<le> chunkMaxPosition c - position s \<and>
          width r > int (length (buffer s)) - position s"
  then have "Chunk_read r c s = PullStream_read r s"
    by (intro Chunk_read_delegates) simp
  with a assms(2) PullStream_read_short [of s r]
  show "Chunk_read r c s =
              (Inl (Exception_fields (position s) (int (length (buffer s))) (width r)
                     ''Short read (stream end boundary reached)''), s)"
    by simp
next
  fix v s'
  assume ok: "Chunk_read r c s = (Inr v, s')"
  have 1: "width r \<le> chunkMaxPosition c - position s"
  proof (rule ccontr)
    assume "\<not> width r \<le> chunkMaxPosition c - position s"
    then have "width r > chunkMaxPosition c - position s" by simp
    from Chunk_read_short [OF this] ok show False by simp
  qed
  then have d: "Chunk_read r c s = PullStream_read r s"
    by (rule Chunk_read_delegates)
  have 2: "width r \<le> maxPosition s - position s"
  proof (rule ccontr)
    assume "\<not> width r \<le> maxPosition s - position s"
    then have "width r > maxPosition s - position s" by simp
    from PullStream_read_short [OF this] ok d show False by simp
  qed
  from 1 show "position s + width r \<le> chunkMaxPosition c" by simp
  from 2 assms(2) show "position s + width r \<le> int (length (buffer s))" by simp
  from PullStream_read_ok [OF 2] ok d show "s' = s\<lparr>position := position s + width r\<rparr>"
    by auto
  fix i
  assume "position s \<le> i \<and> i < position s + width r"
  with 2 assms show "buffer_at (buffer s) i \<noteq> None"
    by (intro buffer_at_in_range) auto
qed

theorem chunk_reads_stay_in_buffer_witness:
  "0 \<le> position (fromFile [1, 2, 3]) \<and>
   maxPosition (fromFile [1, 2, 3]) = int (length (buffer (fromFile [1, 2, 3]))) \<and>
   width ReadLong \<le> chunkMaxPosition (PullStream_chunk (fromFile [1, 2, 3]) ''c'' (Some 10)) - position (fromFile [1, 2, 3]) \<and>
   width ReadLong > int (length (buffer (fromFile [1, 2, 3]))) - position (fromFile [1, 2, 3]) \<and>
   Chunk_read ReadLong (PullStream_chunk (fromFile [1, 2, 3]) ''c'' (Some 10)) (fromFile [1, 2, 3]) =
     (Inl (Exception_fields 0 3 4 ''Short read (stream end boundary reached)''), fromFile [1, 2, 3])"
proof -
  have a: "0 \<le> position (fromFile [1, 2, 3])"
    "maxPosition (fromFile [1, 2, 3]) = int (length (buffer (fromFile [1, 2, 3])))"
    by (simp_all add: fromFile_def)
  from chunk_reads_stay_in_buffer [OF a, where r = ReadLong
      and c = "PullStream_chunk (fromFile [1, 2, 3]) ''c'' (Some 10)"] a
  show ?thesis
    by (simp add: fromFile_def PullStream_chunk_def newChunk_def)
qed

section \<open>Short reads\<close>

lemma PullStream_skip_short:
  "0 < n \<Longrightarrow> n > maxPosition s - position s \<Longrightarrow>
   PullStream_skip s n =
     (Inl (Exception_fields (position s) (maxPosition s) n
            ''Short read (stream end boundary reached)''), s)"
  by (simp add: PullStream_skip_def PullStream_ensureCapacity_def)

lemma Chunk_skip_short:
  "0 < n \<Longrightarrow> n > chunkMaxPosition c - position s \<Longrightarrow>
   Chunk_skip c s (Some n) =
     (Inl (Exception_fields (position s) (chunkMaxPosition c) n
            ''Short read (chunk end boundary reached)''), s)"
  by (simp add: Chunk_skip_def Chunk_ensureCapacity_def)

lemma Chunk_skip_delegates:
  "0 < n \<Longrightarrow> n \<le> chunkMaxPosition c - position s \<Longrightarrow>
   Chunk_skip c s (Some n) = PullStream_skip s n"
  by (simp add: Chunk_skip_def Chunk_ensureCapacity_def)

lemma Chunk_skip_rest:
  "0 < chunkMaxPosition c - position s \<Longrightarrow>
   Chunk_skip c s None = PullStream_skip s (chunkMaxPosition c - position s)"
  by (simp add: Chunk_skip_def Chunk_ensureCapacity_def Let_def)

lemma readZString88591_throws:
  assumes "Chunk_readZString88591 c s False = (Inl e, s')"
  shows "e = Exception_message
               ''Short read (chunk end boundary reached) when reading ISO-8859-1 string'' \<and>
         s' = s\<lparr>position := max (position s) (chunkMaxPosition c)\<rparr>"
proof -
  obtain found str t where l: "readZString88591_loop c [] s = ((found, str), t)"
    by (metis prod.exhaust)
  with assms have "\<not> found" "t = s'"
    "e = Exception_message
               ''Short read (chunk end boundary reached) when reading ISO-8859-1 string''"
    by (auto simp: Chunk_readZString88591_def split: if_splits bool.splits)
  with readZString88591_loop_state [OF l] show ?thesis
    by auto
qed

lemma readZStringUTF8_throws:
  assumes "Chunk_readZStringUTF8 utf8 c s False = (Inl e, s')"
  shows "e = Exception_message
               ''Short read (chunk end boundary reached) when reading UTF-8 string'' \<and>
         s' = s\<lparr>position := max (position s) (chunkMaxPosition c)\<rparr>"
proof -
  obtain found t where l: "readZStringUTF8_loop c s = (found, t)"
    by (metis prod.exhaust)
  with assms have "\<not> found" "t = s'"
    "e = Exception_message
               ''Short read (chunk end boundary reached) when reading UTF-8 string''"
    by (auto simp: Chunk_readZStringUTF8_def Let_def split: if_splits bool.splits)
  with readZStringUTF8_loop_state [OF l] show ?thesis
    by auto
qed

lemma readZStringUTF16_throws:
  assumes "Chunk_readZStringUTF16 c s False = (Inl e, s')"
  shows "e = Exception_message
               ''Short read (chunk end boundary reached) when reading UTF-16 string'' \<and>
         position s \<le> position s' \<and> position s' \<le> max (position s) (chunkMaxPosition c) \<and>
         chunkMaxPosition c - position s' \<le> 1"
proof -
  obtain r t where l: "readZStringUTF16_loop c (position s) False s = (r, t)"
    by (metis prod.exhaust)
  with assms obtain x where "r = Inr x" "t = s'"
    "e = Exception_message
               ''Short read (chunk end boundary reached) when reading UTF-16 string''"
    by (auto simp: Chunk_readZStringUTF16_def split: sum.splits prod.splits)
  with readZStringUTF16_loop_state [OF l] show ?thesis
    by auto
qed

lemma readZString88591_loop_unterminated:
  "(\<forall>i. position s \<le> i \<and> i < chunkMaxPosition c \<longrightarrow> buffer_at (buffer s) i \<noteq> Some 0) \<Longrightarrow>
   fst (fst (readZString88591_loop c str s)) = False"
proof (induction c str s rule: readZString88591_loop.induct)
  case (1 that str stream)
  show ?case
  proof (cases "chunkMaxPosition that - position stream > 0")
    case True
    with "1.prems" have nz: "buffer_at (buffer stream) (position stream) \<noteq> Some 0"
      by simp
    have "fst (fst (readZString88591_loop that
        (str @ [fromCharCode (buffer_at (buffer stream) (position stream))])
        (stream\<lparr>position := position stream + 1\<rparr>))) = False"
      using "1.prems" by (intro "1.IH" [OF True refl refl nz]) simp
    with True nz show ?thesis
      by (subst readZString88591_loop.simps) (simp add: Let_def)
  next
    case False
    then show ?thesis
      by (subst readZString88591_loop.simps) simp
  qed
qed

lemma readZStringUTF8_loop_unterminated:
  "(\<forall>i. position s \<le> i \<and> i < chunkMaxPosition c \<longrightarrow> buffer_at (buffer s) i \<noteq> Some 0) \<Longrightarrow>
   fst (readZStringUTF8_loop c s) = False"
proof (induction c s rule: readZStringUTF8_loop.induct)
  case (1 that stream)
  show ?case
  proof (cases "chunkMaxPosition that - position stream \<ge> 1")
    case True
    with "1.prems" have nz: "buffer_at (buffer stream) (position stream) \<noteq> Some 0"
      by simp
    have "fst (readZStringUTF8_loop that (stream\<lparr>position := position stream + 1\<rparr>)) = False"
      using "1.prems" by (intro "1.IH" [OF True refl refl nz]) simp
    with True nz show ?thesis
      by (subst readZStringUTF8_loop.simps) (simp add: Let_def)
  next
    case False
    then show ?thesis
      by (subst readZStringUTF8_loop.simps) simp
  qed
qed

lemma readZString88591_unterminated:
  assumes "unterminated c s"
  shows "Chunk_readZString88591 c s False =
     (Inl (Exception_message
            ''Short read (chunk end boundary reached) when reading ISO-8859-1 string''),
      s\<lparr>position := max (position s) (chunkMaxPosition c)\<rparr>)"
proof -
  obtain found str t where l: "readZString88591_loop c [] s = ((found, str), t)"
    by (metis prod.exhaust)
  with readZString88591_loop_unterminated [of s c "[]"] assms have "\<not> found"
    by (simp add: unterminated_def)
  with l readZString88591_loop_state [OF l] show ?thesis
    by (auto simp: Chunk_readZString88591_def)
qed

lemma readZStringUTF8_unterminated:
  assumes "unterminated c s"
  shows "Chunk_readZStringUTF8 utf8 c s False =
     (Inl (Exception_message
            ''Short read (chunk end boundary reached) when reading UTF-8 string''),
      s\<lparr>position := max (position s) (chunkMaxPosition c)\<rparr>)"
proof -
  obtain found t where l: "readZStringUTF8_loop c s = (found, t)"
    by (metis prod.exhaust)
  with readZStringUTF8_loop_unterminated [of s c] assms have "\<not> found"
    by (simp add: unterminated_def)
  with l readZStringUTF8_loop_state [OF l] show ?thesis
    by (auto simp: Chunk_readZStringUTF8_def Let_def)
qed

text \<open>
  Claim C4, as the code has it. A fixed-width read, or a \<open>skip(n)\<close> with \<open>n > 0\<close>,
  that asks for more bytes than are left within the bound that is checked throws at
  once the exception of that check, which carries the position, the bound that was
  checked (the chunk's \<open>maxPosition\<close>, or the stream's when the chunk's check passes
  and the stream's fails) and the number of bytes asked for; the stream, and so the
  position, is left as it was. \<open>skip()\<close> on a chunk asks for the chunk's remaining
  bytes. The exceptions of \<open>readZString88591\<close>, \<open>readZStringUTF8\<close> and
  \<open>readZStringUTF16\<close> without \<open>allowShortRead\<close> are of another kind: they carry
  a message only, and they are thrown after the loop has advanced the position to the
  chunk's \<open>maxPosition\<close> (for UTF-16, to within one byte of it). The first two throw
  whenever no byte up to the chunk's \<open>maxPosition\<close> is zero.
\<close>

theorem short_read_exceptions:
  "(width r > maxPosition s - position s \<longrightarrow>
      PullStream_read r s =
        (Inl (Exception_fields (position s) (maxPosition s) (width r)
               ''Short read (stream end boundary reached)''), s)) \<and>
   (0 < n \<and> n > maxPosition s - position s \<longrightarrow>
      PullStream_skip s n =
        (Inl (Exception_fields (position s) (maxPosition s) n
               ''Short read (stream end boundary reached)''), s)) \<and>
   (width r > chunkMaxPosition c - position s \<longrightarrow>
      Chunk_read r c s =
        (Inl (Exception_fields (position s) (chunkMaxPosition c) (width r)
               ''Short read (chunk end boundary reached)''), s)) \<and>
   (width r \<le> chunkMaxPosition c - position s \<and> width r > maxPosition s - position s \<longrightarrow>
      Chunk_read r c s =
        (Inl (Exception_fields (position s) (maxPosition s) (width r)
               ''Short read (stream end boundary reached)''), s)) \<and>
   (0 < n \<and> n > chunkMaxPosition c - position s \<longrightarrow>
      Chunk_skip c s (Some n) =
        (Inl (Exception_fields (position s) (chunkMaxPosition c) n
               ''Short read (chunk end boundary reached)''), s)) \<and>
   (0 < n \<and> n \<le> chunkMaxPosition c - position s \<and> n > maxPosition s - position s \<longrightarrow>
      Chunk_skip c s (Some n) =
        (Inl (Exception_fields (position s) (maxPosition s) n
               ''Short read (stream end boundary reached)''), s)) \<and>
   (0 < chunkMaxPosition c - position s \<and> chunkMaxPosition c > maxPosition s \<longrightarrow>
      Chunk_skip c s None =
        (Inl (Exception_fields (position s) (maxPosition s) (chunkMaxPosition c - position s)
               ''Short read (stream end boundary reached)''), s)) \<and>
   (unterminated c s \<longrightarrow>
      Chunk_readZString88591 c s False =
        (Inl (Exception_message
               ''Short read (chunk end boundary reached) when reading ISO-8859-1 string''),
         s\<lparr>position := max (position s) (chunkMaxPosition c)\<rparr>) \<and>
      Chunk_readZStringUTF8 utf8 c s False =
        (Inl (Exception_message
               ''Short read (chunk end boundary reached) when reading UTF-8 string''),
         s\<lparr>position := max (position s) (chunkMaxPosition c)\<rparr>)) \<and>
   (\<forall>e s'. Chunk_readZString88591 c s False = (Inl e, s') \<longrightarrow>
      e = Exception_message
            ''Short read (chunk end boundary reached) when reading ISO-8859-1 string'' \<and>
      s' = s\<lparr>position := max (position s) (chunkMaxPosition c)\<rparr>) \<and>
   (\<forall>e s'. Chunk_readZStringUTF8 utf8 c s False = (Inl e, s') \<longrightarrow>
      e = Exception_message ''Short read (chunk end boundary reached) when reading UTF-8 string'' \<and>
      s' = s\<lparr>position := max (position s) (chunkMaxPosition c)\<rparr>) \<and>
   (\<forall>e s'. Chunk_readZStringUTF16 c s False = (Inl e, s') \<longrightarrow>
      e = Exception_message ''Short read (chunk end boundary reached) when reading UTF-16 string'' \<and>
      position s \<le> position s' \<and> position s' \<le> max (position s) (chunkMaxPosition c) \<and>
      chunkMaxPosition c - position s' \<le> 1)"
proof (intro conjI impI allI)
  assume "width r > maxPosition s - position s"
  then show "PullStream_read r s =
        (Inl (Exception_fields (position s) (maxPosition s) (width r)
               ''Short read (stream end boundary reached)''), s)"
    by (rule PullStream_read_short)
next
  assume "0 < n \<and> n > maxPosition s - position s"
  then show "PullStream_skip s n =
        (Inl (Exception_fields (position s) (maxPosition s) n
               ''Short read (stream end boundary reached)''), s)"
    by (simp add: PullStream_skip_short)
next
  assume "width r > chunkMaxPosition c - position s"
  then show "Chunk_read r c s =
        (Inl (Exception_fields (position s) (chunkMaxPosition c) (width r)
               ''Short read (chunk end boundary reached)''), s)"
    by (rule Chunk_read_short)
next
  assume "width r \<le> chunkMaxPosition c - position s \<and> width r > maxPosition s - position s"
  then show "Chunk_read r c s =
        (Inl (Exception_fields (position s) (maxPosition s) (width r)
               ''Short read (stream end boundary reached)''), s)"
    by (simp add: Chunk_read_delegates PullStream_read_short)
next
  assume "0 < n \<and> n > chunkMaxPosition c - position s"
  then show "Chunk_skip c s (Some n) =
        (Inl (Exception_fields (position s) (chunkMaxPosition c) n
               ''Short read (chunk end boundary reached)''), s)"
    by (simp add: Chunk_skip_short)
next
  assume "0 < n \<and> n \<le> chunkMaxPosition c - position s \<and> n > maxPosition s - position s"
  then show "Chunk_skip c s (Some n) =
        (Inl (Exception_fields (position s) (maxPosition s) n
               ''Short read (stream end boundary reached)''), s)"
    by (simp add: Chunk_skip_delegates PullStream_skip_short)
next
  assume "0 < chunkMaxPosition c - position s \<and> chunkMaxPosition c > maxPosition s"
  then show "Chunk_skip c s None =
        (Inl (Exception_fields (position s) (maxPosition s) (chunkMaxPosition c - position s)
               ''Short read (stream end boundary reached)''), s)"
    by (simp add: Chunk_skip_rest PullStream_skip_short)
next
  assume "unterminated c s"
  then show "Chunk_readZString88591 c s False =
        (Inl (Exception_message
               ''Short read (chunk end boundary reached) when reading ISO-8859-1 string''),
         s\<lparr>position := max (position s) (chunkMaxPosition c)\<rparr>)"
    by (rule readZString88591_unterminated)
next
  assume "unterminated c s"
  then show "Chunk_readZStringUTF8 utf8 c s False =
        (Inl (Exception_message
               ''Short read (chunk end boundary reached) when reading UTF-8 string''),
         s\<lparr>position := max (position s) (chunkMaxPosition c)\<rparr>)"
    by (rule readZStringUTF8_unterminated)
next
  fix e s'
  assume a: "Chunk_readZString88591 c s False = (Inl e, s')"
  from readZString88591_throws [OF a]
  show "e = Exception_message
            ''Short read (chunk end boundary reached) when reading ISO-8859-1 string''"
    and "s' = s\<lparr>position := max (position s) (chunkMaxPosition c)\<rparr>"
    by simp_all
next
  fix e s'
  assume a: "Chunk_readZStringUTF8 utf8 c s False = (Inl e, s')"
  from readZStringUTF8_throws [OF a]
  show "e = Exception_message ''Short read (chunk end boundary reached) when reading UTF-8 string''"
    and "s' = s\<lparr>position := max (position s) (chunkMaxPosition c)\<rparr>"
    by simp_all
next
  fix e s'
  assume a: "Chunk_readZStringUTF16 c s False = (Inl e, s')"
  from readZStringUTF16_throws [OF a]
  show "e = Exception_message ''Short read (chunk end boundary reached) when reading UTF-16 string''"
    and "position s \<le> position s'" and "position s' \<le> max (position s) (chunkMaxPosition c)"
    and "chunkMaxPosition c - position s' \<le> 1"
    by simp_all
qed

theorem short_read_exceptions_witness:
  "width ReadLong > maxPosition (fromFile [0x41, 0x42]) - position (fromFile [0x41, 0x42]) \<and>
   PullStream_read ReadLong (fromFile [0x41, 0x42]) =
     (Inl (Exception_fields 0 2 4 ''Short read (stream end boundary reached)''),
      fromFile [0x41, 0x42]) \<and>
   PullStream_skip (fromFile [0x41, 0x42]) 3 =
     (Inl (Exception_fields 0 2 3 ''Short read (stream end boundary reached)''),
      fromFile [0x41, 0x42]) \<and>
   Chunk_read ReadLong \<lparr>name = ''c1'', chunkMaxPosition = 1\<rparr> (fromFile [0x41, 0x42]) =
     (Inl (Exception_fields 0 1 4 ''Short read (chunk end boundary reached)''),
      fromFile [0x41, 0x42]) \<and>
   Chunk_read ReadLong \<lparr>name = ''c2'', chunkMaxPosition = 5\<rparr> (fromFile [0x41, 0x42]) =
     (Inl (Exception_fields 0 2 4 ''Short read (stream end boundary reached)''),
      fromFile [0x41, 0x42]) \<and>
   Chunk_skip \<lparr>name = ''c1'', chunkMaxPosition = 1\<rparr> (fromFile [0x41, 0x42]) (Some 3) =
     (Inl (Exception_fields 0 1 3 ''Short read (chunk end boundary reached)''),
      fromFile [0x41, 0x42]) \<and>
   Chunk_skip \<lparr>name = ''c2'', chunkMaxPosition = 5\<rparr> (fromFile [0x41, 0x42]) (Some 3) =
     (Inl (Exception_fields 0 2 3 ''Short read (stream end boundary reached)''),
      fromFile [0x41, 0x42]) \<and>
   Chunk_skip \<lparr>name = ''c2'', chunkMaxPosition = 5\<rparr> (fromFile [0x41, 0x42]) None =
     (Inl (Exception_fields 0 2 5 ''Short read (stream end boundary reached)''),
      fromFile [0x41, 0x42]) \<and>
   unterminated \<lparr>name = ''c1'', chunkMaxPosition = 1\<rparr> (fromFile [0x41, 0x42]) \<and>
   Chunk_readZString88591 \<lparr>name = ''c1'', chunkMaxPosition = 1\<rparr> (fromFile [0x41, 0x42]) False =
     (Inl (Exception_message
            ''Short read (chunk end boundary reached) when reading ISO-8859-1 string''),
      (fromFile [0x41, 0x42])\<lparr>position := 1\<rparr>) \<and>
   Chunk_readZStringUTF8 (map ucast) \<lparr>name = ''c1'', chunkMaxPosition = 1\<rparr>
       (fromFile [0x41, 0x42]) False =
     (Inl (Exception_message
            ''Short read (chunk end boundary reached) when reading UTF-8 string''),
      (fromFile [0x41, 0x42])\<lparr>position := 1\<rparr>) \<and>
   Chunk_readZStringUTF16 \<lparr>name = ''c2'', chunkMaxPosition = 5\<rparr> (fromFile [0x41, 0x42]) False =
     (Inl (Exception_message
            ''Short read (chunk end boundary reached) when reading UTF-16 string''),
      (fromFile [0x41, 0x42])\<lparr>position := 4\<rparr>) \<and>
   chunkMaxPosition \<lparr>name = ''c2'', chunkMaxPosition = 5\<rparr>
     - position ((fromFile [0x41, 0x42])\<lparr>position := 4\<rparr>) \<le> 1"
proof -
  let ?s = "fromFile [0x41, 0x42]"
  let ?c1 = "\<lparr>name = ''c1'', chunkMaxPosition = 1\<rparr>"
  let ?c2 = "\<lparr>name = ''c2'', chunkMaxPosition = 5\<rparr>"
  have s: "position ?s = 0" "maxPosition ?s = 2"
    by (simp_all add: fromFile_def)
  have u: "unterminated ?c1 ?s"
    by (auto simp: unterminated_def fromFile_def buffer_at_def)
  have z: "Chunk_readZStringUTF16 ?c2 ?s False =
     (Inl (Exception_message
            ''Short read (chunk end boundary reached) when reading UTF-16 string''),
      ?s\<lparr>position := 4\<rparr>)"
    by code_simp
  note t1 = short_read_exceptions [where r = ReadLong and s = ?s and n = 3 and c = ?c1
      and ?utf8.0 = "map ucast"]
  note t2 = short_read_exceptions [where r = ReadLong and s = ?s and n = 3 and c = ?c2
      and ?utf8.0 = "map ucast"]
  have w: "width ReadLong > maxPosition ?s - position ?s"
    by (simp add: s)
  have 1: "PullStream_read ReadLong ?s =
     (Inl (Exception_fields 0 2 4 ''Short read (stream end boundary reached)''), ?s)"
    using t1 [THEN conjunct1] by (simp add: s)
  have 2: "PullStream_skip ?s 3 =
     (Inl (Exception_fields 0 2 3 ''Short read (stream end boundary reached)''), ?s)"
    using t1 [THEN conjunct2, THEN conjunct1] by (simp add: s)
  have 3: "Chunk_read ReadLong ?c1 ?s =
     (Inl (Exception_fields 0 1 4 ''Short read (chunk end boundary reached)''), ?s)"
    using t1 [THEN conjunct2, THEN conjunct2, THEN conjunct1] by (simp add: s)
  have 4: "Chunk_read ReadLong ?c2 ?s =
     (Inl (Exception_fields 0 2 4 ''Short read (stream end boundary reached)''), ?s)"
    using t2 [THEN conjunct2, THEN conjunct2, THEN conjunct2, THEN conjunct1] by (simp add: s)
  have 5: "Chunk_skip ?c1 ?s (Some 3) =
     (Inl (Exception_fields 0 1 3 ''Short read (chunk end boundary reached)''), ?s)"
    using t1 [THEN conjunct2, THEN conjunct2, THEN conjunct2, THEN conjunct2, THEN conjunct1]
    by (simp add: s)
  have 6: "Chunk_skip ?c2 ?s (Some 3) =
     (Inl (Exception_fields 0 2 3 ''Short read (stream end boundary reached)''), ?s)"
    using t2 [THEN conjunct2, THEN conjunct2, THEN conjunct2, THEN conjunct2, THEN conjunct2,
        THEN conjunct1]
    by (simp add: s)
  have 7: "Chunk_skip ?c2 ?s None =
     (Inl (Exception_fields 0 2 5 ''Short read (stream end boundary reached)''), ?s)"
    using t2 [THEN conjunct2, THEN conjunct2, THEN conjunct2, THEN conjunct2, THEN conjunct2,
        THEN conjunct2, THEN conjunct1]
    by (simp add: s)
  have 8: "Chunk_readZString88591 ?c1 ?s False =
     (Inl (Exception_message
            ''Short read (chunk end boundary reached) when reading ISO-8859-1 string''),
      ?s\<lparr>position := 1\<rparr>)"
    "Chunk_readZStringUTF8 (map ucast) ?c1 ?s False =
     (Inl (Exception_message
            ''Short read (chunk end boundary reached) when reading UTF-8 string''),
      ?s\<lparr>position := 1\<rparr>)"
    using u t1 [THEN conjunct2, THEN conjunct2, THEN conjunct2, THEN conjunct2, THEN conjunct2,
        THEN conjunct2, THEN conjunct2, THEN conjunct1]
    by (simp_all add: s)
  have 9: "chunkMaxPosition ?c2 - position (?s\<lparr>position := 4\<rparr>) \<le> 1"
    using z t2 [THEN conjunct2, THEN conjunct2, THEN conjunct2, THEN conjunct2, THEN conjunct2,
        THEN conjunct2, THEN conjunct2, THEN conjunct2, THEN conjunct2, THEN conjunct2]
    by blast
  from w 1 2 3 4 5 6 7 u 8 z 9 show ?thesis
    by (intro conjI)
qed

text \<open>
  Claim C4, as stated, fails for the zero-terminated strings: on the one byte \<open>41\<close>,
  \<open>readZString88591(false)\<close> throws an exception that carries a message and no
  position, bound or count, and the position, 0 before the call, is 1 after it.
\<close>

theorem readZString_throw_counterexample:
  "fst (Chunk_readZString88591 (PullStream_chunk (fromFile [0x41]) ''c'' None) (fromFile [0x41]) False) =
     Inl (Exception_message
           ''Short read (chunk end boundary reached) when reading ISO-8859-1 string'') \<and>
   position (fromFile [0x41]) = 0 \<and>
   position (snd (Chunk_readZString88591 (PullStream_chunk (fromFile [0x41]) ''c'' None)
                    (fromFile [0x41]) False)) = 1"
  by code_simp

section \<open>Whole-chunk reads\<close>

lemma toString_range_eq: "Buffer_toString_range buf lo hi = byte_range buf lo hi"
proof (cases "min hi (int (length buf)) \<le> max 0 lo")
  case True
  then have "length (take (nat hi) buf) \<le> nat lo"
    by (auto simp: min_def max_def split: if_splits)
  with True show ?thesis
    by (simp add: Buffer_toString_range_def byte_range_def Let_def)
next
  case False
  then have lo: "nat (max 0 lo) = nat lo" and hi: "0 \<le> hi" "max 0 lo < hi"
    by (auto simp: max_def min_def split: if_splits)
  have "take (nat (min hi (int (length buf)) - max 0 lo)) (drop (nat lo) buf) =
        drop (nat lo) (take (nat (min hi (int (length buf)) - max 0 lo) + nat lo) buf)"
    by (rule take_drop)
  also have "nat (min hi (int (length buf)) - max 0 lo) + nat lo = nat (min hi (int (length buf)))"
    using False by (auto simp: max_def min_def split: if_splits)
  also have "take (nat (min hi (int (length buf)))) buf = take (nat hi) buf"
    using hi by (auto simp: min_def)
  finally show ?thesis
    using False lo by (simp add: Buffer_toString_range_def byte_range_def Let_def)
qed

lemma slice_eq:
  assumes "0 \<le> lo" "0 \<le> hi"
  shows "Buffer_slice buf lo hi = byte_range buf lo hi"
proof -
  let ?len = "int (length buf)"
  have "Buffer_slice buf lo hi =
      take (nat (max (min hi ?len) (min lo ?len) - min lo ?len)) (drop (nat (min lo ?len)) buf)"
    using assms by (auto simp: Buffer_slice_def slice_index_def Let_def max_def)
  also have "\<dots> = drop (nat (min lo ?len))
      (take (nat (max (min hi ?len) (min lo ?len) - min lo ?len) + nat (min lo ?len)) buf)"
    by (rule take_drop)
  also have "nat (max (min hi ?len) (min lo ?len) - min lo ?len) + nat (min lo ?len) =
      nat (max (min hi ?len) (min lo ?len))"
    using assms by (auto simp: max_def min_def)
  also have "drop (nat (min lo ?len)) (take (nat (max (min hi ?len) (min lo ?len))) buf) =
      drop (nat lo) (take (nat hi) buf)"
  proof (cases "lo \<le> hi")
    case True
    then have "max (min hi ?len) (min lo ?len) = min hi ?len"
      by (auto simp: max_def min_def)
    moreover have "take (nat (min hi ?len)) buf = take (nat hi) buf"
      using assms by (auto simp: min_def)
    moreover have "drop (nat (min lo ?len)) (take (nat hi) buf) = drop (nat lo) (take (nat hi) buf)"
      using assms by (auto simp: min_def)
    ultimately show ?thesis by simp
  next
    case False
    then show ?thesis
      using assms by (auto simp: max_def min_def)
  qed
  finally show ?thesis
    by (simp add: byte_range_def)
qed

lemma byte_range_step:
  assumes "0 \<le> lo" "lo < hi" "hi \<le> int (length buf)"
  shows "byte_range buf lo hi = buf ! nat lo # byte_range buf (lo + 1) hi"
proof -
  have "nat lo < length (take (nat hi) buf)"
    using assms by auto
  then have "drop (nat lo) (take (nat hi) buf) =
      take (nat hi) buf ! nat lo # drop (Suc (nat lo)) (take (nat hi) buf)"
    by (rule Cons_nth_drop_Suc [symmetric])
  moreover have "take (nat hi) buf ! nat lo = buf ! nat lo"
    using assms by auto
  moreover have "Suc (nat lo) = nat (lo + 1)"
    using assms by auto
  ultimately show ?thesis
    by (simp add: byte_range_def)
qed

lemma fromCharCode_byte: "fromCharCode (Some (uint (b::byte))) = ucast b"
  unfolding fromCharCode_def option.case by (rule ucast_eq [symmetric])

lemma upto_empty_range: "hi \<le> lo \<Longrightarrow> [lo..hi - 1] = []"
  by simp

lemma byte_range_empty: "hi \<le> lo \<Longrightarrow> 0 \<le> lo \<Longrightarrow> byte_range buf lo hi = []"
  by (simp add: byte_range_def)

lemma latin1_byte_range:
  "0 \<le> lo \<Longrightarrow> hi \<le> int (length buf) \<Longrightarrow>
   map (\<lambda>i. fromCharCode (buffer_at buf i)) [lo..hi - 1] = map ucast (byte_range buf lo hi)"
proof (induction "nat (hi - lo)" arbitrary: lo)
  case 0
  then have "hi \<le> lo" by simp
  with "0.prems" show ?case
    by (simp only: upto_empty_range byte_range_empty list.map)
next
  case (Suc n)
  from Suc.hyps(2) have lt: "lo < hi" by linarith
  from Suc.hyps(2) have n: "n = nat (hi - (lo + 1))" by linarith
  have lo1: "0 \<le> lo + 1" using Suc.prems(1) by simp
  from Suc.prems lt have "buffer_at buf lo = Some (uint (buf ! nat lo))"
    by (simp add: buffer_at_def)
  then have "fromCharCode (buffer_at buf lo) = ucast (buf ! nat lo)"
    by (simp only: fromCharCode_byte)
  moreover have "map (\<lambda>i. fromCharCode (buffer_at buf i)) [lo + 1..hi - 1] =
      map ucast (byte_range buf (lo + 1) hi)"
    by (rule Suc.hyps(1) [OF n lo1 Suc.prems(2)])
  moreover have "[lo..hi - 1] = lo # [lo + 1..hi - 1]"
    using lt by (intro upto_rec1) simp
  moreover note byte_range_step [OF Suc.prems(1) lt Suc.prems(2)]
  ultimately show ?case
    by (simp only: list.map)
qed

lemma readString88591_result:
  "Chunk_readString88591 c s =
     (Inr (map (\<lambda>i. fromCharCode (buffer_at (buffer s) i)) [position s..chunkMaxPosition c - 1]),
      s\<lparr>position := max (position s) (chunkMaxPosition c)\<rparr>)"
proof -
  obtain str s' where l: "readString88591_loop c [] s = (str, s')"
    by (metis prod.exhaust)
  from readString88591_loop_state [OF l] readString88591_loop_string [OF l] l
  show ?thesis
    by (simp add: Chunk_readString88591_def)
qed


text \<open>
  Claim C8, as the code has it. \<open>readStringUTF8\<close> and \<open>readStringUTF16\<close> decode the
  bytes that the buffer holds at the indices from the stream's position up to the chunk's
  \<open>maxPosition\<close>, and leave the stream as it is. \<open>readBuffer\<close> leaves the stream as it
  is and, for a \<open>maxPosition\<close> that is not negative, returns those same bytes.
  \<open>readString88591\<close>, on a chunk whose \<open>maxPosition\<close> is at most the buffer's length,
  returns one code unit for each of those bytes, the byte itself, and leaves the position
  at the chunk's \<open>maxPosition\<close> when it was at or before it, and where it was when it was
  beyond it already. (The position of a stream is never negative.)
\<close>

theorem whole_chunk_reads:
  "Chunk_readStringUTF8 utf8 c s =
     (Inr (utf8 (byte_range (buffer s) (position s) (chunkMaxPosition c))), s) \<and>
   Chunk_readStringUTF16 c s =
     (Inr (ucs2_decode (byte_range (buffer s) (position s) (chunkMaxPosition c))), s) \<and>
   snd (Chunk_readBuffer c s) = s \<and>
   (0 \<le> position s \<and> 0 \<le> chunkMaxPosition c \<longrightarrow>
      Chunk_readBuffer c s =
        (Inr (byte_range (buffer s) (position s) (chunkMaxPosition c)), s)) \<and>
   (0 \<le> position s \<and> chunkMaxPosition c \<le> int (length (buffer s)) \<longrightarrow>
      Chunk_readString88591 c s =
        (Inr (map ucast (byte_range (buffer s) (position s) (chunkMaxPosition c))),
         s\<lparr>position := max (position s) (chunkMaxPosition c)\<rparr>))"
proof (intro conjI impI)
  show "Chunk_readStringUTF8 utf8 c s =
     (Inr (utf8 (byte_range (buffer s) (position s) (chunkMaxPosition c))), s)"
    by (simp add: Chunk_readStringUTF8_def Buffer_toString_utf8_def toString_range_eq)
  show "Chunk_readStringUTF16 c s =
     (Inr (ucs2_decode (byte_range (buffer s) (position s) (chunkMaxPosition c))), s)"
    by (simp add: Chunk_readStringUTF16_def Buffer_toString_ucs2_def toString_range_eq)
  show "snd (Chunk_readBuffer c s) = s"
    by (simp add: Chunk_readBuffer_def)
next
  assume "0 \<le> position s \<and> 0 \<le> chunkMaxPosition c"
  then show "Chunk_readBuffer c s =
        (Inr (byte_range (buffer s) (position s) (chunkMaxPosition c)), s)"
    by (simp add: Chunk_readBuffer_def slice_eq)
next
  assume a: "0 \<le> position s \<and> chunkMaxPosition c \<le> int (length (buffer s))"
  then have "map (\<lambda>i. fromCharCode (buffer_at (buffer s) i))
        [position s..chunkMaxPosition c - 1] =
      map ucast (byte_range (buffer s) (position s) (chunkMaxPosition c))"
    by (intro latin1_byte_range) simp_all
  then show "Chunk_readString88591 c s =
        (Inr (map ucast (byte_range (buffer s) (position s) (chunkMaxPosition c))),
         s\<lparr>position := max (position s) (chunkMaxPosition c)\<rparr>)"
    by (simp only: readString88591_result)
qed

theorem whole_chunk_reads_witness:
  "0 \<le> position (positioned [0x41] [0x42, 0x43]) \<and>
   0 \<le> chunkMaxPosition \<lparr>name = ''c'', chunkMaxPosition = 3\<rparr> \<and>
   chunkMaxPosition \<lparr>name = ''c'', chunkMaxPosition = 3\<rparr>
     \<le> int (length (buffer (positioned [0x41] [0x42, 0x43]))) \<and>
   Chunk_readBuffer \<lparr>name = ''c'', chunkMaxPosition = 3\<rparr> (positioned [0x41] [0x42, 0x43]) =
     (Inr [0x42, 0x43], positioned [0x41] [0x42, 0x43]) \<and>
   Chunk_readStringUTF16 \<lparr>name = ''c'', chunkMaxPosition = 3\<rparr> (positioned [0x41] [0x42, 0x43]) =
     (Inr [0x4342], positioned [0x41] [0x42, 0x43]) \<and>
   Chunk_readString88591 \<lparr>name = ''c'', chunkMaxPosition = 3\<rparr> (positioned [0x41] [0x42, 0x43]) =
     (Inr [0x42, 0x43], (positioned [0x41] [0x42, 0x43])\<lparr>position := 3\<rparr>)"
proof -
  let ?s = "positioned [0x41] [0x42, 0x43]"
  let ?c = "\<lparr>name = ''c'', chunkMaxPosition = 3\<rparr>"
  have s: "position ?s = 1" "buffer ?s = [0x41, 0x42, 0x43]"
    by (simp_all add: positioned_def)
  have r: "byte_range (buffer ?s) (position ?s) (chunkMaxPosition ?c) = [0x42, 0x43]"
    by (simp add: s byte_range_def numeral_3_eq_3)
  have d: "ucs2_decode [0x42, 0x43] = [0x4342]"
    by code_simp
  note t = whole_chunk_reads [where c = ?c and s = ?s and ?utf8.0 = "map ucast"]
  have 1: "Chunk_readBuffer ?c ?s = (Inr [0x42, 0x43], ?s)"
    using t [THEN conjunct2, THEN conjunct2, THEN conjunct2, THEN conjunct1] r
    by (simp add: s)
  have 2: "Chunk_readString88591 ?c ?s = (Inr [0x42, 0x43], ?s\<lparr>position := 3\<rparr>)"
    using t [THEN conjunct2, THEN conjunct2, THEN conjunct2, THEN conjunct2] r
    by (simp add: s)
  have 3: "Chunk_readStringUTF16 ?c ?s = (Inr [0x4342], ?s)"
    using t [THEN conjunct2, THEN conjunct1] r d
    by simp
  from 1 2 3 show ?thesis
    by (simp add: s)
qed

text \<open>
  Claim C8 where it fails. On the file \<open>41 42 43\<close> a chunk made at position 0 with
  length 1 has \<open>maxPosition\<close> 1; after the stream has skipped two bytes the position
  is 2, beyond it, and \<open>readString88591\<close> returns the empty string and leaves the
  position at 2, not at the chunk's \<open>maxPosition\<close>. On the file \<open>01 02 03 04\<close>, after
  the stream has skipped one byte, a chunk made with length \<open>-2\<close> has \<open>maxPosition\<close>
  \<open>-1\<close>, which \<open>slice\<close> counts from the buffer's end: \<open>readBuffer\<close> returns
  \<open>02 03\<close>, where the range from 1 up to \<open>-1\<close> has no byte and \<open>readStringUTF8\<close>
  decodes none.
\<close>

theorem whole_chunk_reads_counterexample:
  "chunkMaxPosition (PullStream_chunk (fromFile [0x41, 0x42, 0x43]) ''c'' (Some 1)) = 1 \<and>
   PullStream_skip (fromFile [0x41, 0x42, 0x43]) 2 =
     (Inr (), \<lparr>buffer = [0x41, 0x42, 0x43], position = 2, maxPosition = 3\<rparr>) \<and>
   Chunk_readString88591 (PullStream_chunk (fromFile [0x41, 0x42, 0x43]) ''c'' (Some 1))
       \<lparr>buffer = [0x41, 0x42, 0x43], position = 2, maxPosition = 3\<rparr> =
     (Inr [], \<lparr>buffer = [0x41, 0x42, 0x43], position = 2, maxPosition = 3\<rparr>) \<and>
   PullStream_skip (fromFile [0x01, 0x02, 0x03, 0x04]) 1 =
     (Inr (), \<lparr>buffer = [0x01, 0x02, 0x03, 0x04], position = 1, maxPosition = 4\<rparr>) \<and>
   chunkMaxPosition (PullStream_chunk
       \<lparr>buffer = [0x01, 0x02, 0x03, 0x04], position = 1, maxPosition = 4\<rparr> ''c'' (Some (- 2))) = - 1 \<and>
   Chunk_readBuffer (PullStream_chunk
       \<lparr>buffer = [0x01, 0x02, 0x03, 0x04], position = 1, maxPosition = 4\<rparr> ''c'' (Some (- 2)))
       \<lparr>buffer = [0x01, 0x02, 0x03, 0x04], position = 1, maxPosition = 4\<rparr> =
     (Inr [0x02, 0x03], \<lparr>buffer = [0x01, 0x02, 0x03, 0x04], position = 1, maxPosition = 4\<rparr>) \<and>
   byte_range [0x01, 0x02, 0x03, 0x04] 1 (- 1) = [] \<and>
   Chunk_readStringUTF8 (map ucast) (PullStream_chunk
       \<lparr>buffer = [0x01, 0x02, 0x03, 0x04], position = 1, maxPosition = 4\<rparr> ''c'' (Some (- 2)))
       \<lparr>buffer = [0x01, 0x02, 0x03, 0x04], position = 1, maxPosition = 4\<rparr> =
     (Inr [], \<lparr>buffer = [0x01, 0x02, 0x03, 0x04], position = 1, maxPosition = 4\<rparr>)"
  by code_simp

section \<open>Zero-terminated UTF-16 strings\<close>











lemma length_swap_pairs [simp]: "length (swap_pairs bs) = length bs"
  by (induction bs rule: swap_pairs.induct) simp_all



















section \<open>Scanning for a magic number\<close>

text \<open>
  For a pattern whose first byte is not zero the scans do what their comments say. The
  loop is \<open>scan_window\<close> on the bytes left, started with a window of zeros; since
  the pattern does not begin with a zero, the window is the pattern only once the
  pattern's bytes have all been read. So the scan stops right after the first
  occurrence of the pattern, and at the end of the buffer when there is none.
  \<open>scanLong\<close> compares with the signed 32-bit value of the four bytes, the one
  \<open>readLong\<close> returns.
\<close>

lemma and_65535: "(m::int) AND 65535 = m mod 65536"
proof -
  have "m AND mask 16 = take_bit 16 m"
    by (rule take_bit_eq_mask [symmetric])
  also have "\<dots> = m mod 2 ^ 16"
    by (rule take_bit_eq_mod)
  finally show ?thesis
    by (simp add: mask_eq_exp_minus_1)
qed

lemma and_16777215: "(m::int) AND 16777215 = m mod 16777216"
proof -
  have "m AND mask 24 = take_bit 24 m"
    by (rule take_bit_eq_mask [symmetric])
  also have "\<dots> = m mod 2 ^ 24"
    by (rule take_bit_eq_mod)
  finally show ?thesis
    by (simp add: mask_eq_exp_minus_1)
qed

lemma ToInt32_mod: "ToInt32 v mod 16777216 = v mod 16777216"
proof -
  have "ToInt32 v = v + 2147483648 - 4294967296 * ((v + 2147483648) div 4294967296) - 2147483648"
    unfolding ToInt32_def by (simp add: minus_mult_div_eq_mod [symmetric])
  then have "ToInt32 v = v + 16777216 * (- 256 * ((v + 2147483648) div 4294967296))"
    by simp
  then show ?thesis
    by (metis mod_mult_self2)
qed

lemma shift_in_inj:
  fixes A P a p :: int
  assumes "0 \<le> a" "a < 256" "0 \<le> p" "p < 256" "A * 256 + a = P * 256 + p"
  shows "A = P \<and> a = p"
proof -
  have "\<not> A < P" "\<not> P < A"
    using assms by linarith+
  then have "A = P" by simp
  with assms show ?thesis by simp
qed

lemma fold3_inj:
  "fold_big_endian [a1, a2, a3] = fold_big_endian [p1, p2, p3] \<longleftrightarrow> [a1, a2, a3] = [p1, p2, p3]"
proof
  assume e: "fold_big_endian [a1, a2, a3] = fold_big_endian [p1, p2, p3]"
  from shift_in_inj [OF uint_byte_bounds [of a3] uint_byte_bounds [of p3] e [unfolded fold_big_endian3]]
  have 1: "uint a1 * 256 + uint a2 = uint p1 * 256 + uint p2" "uint a3 = uint p3"
    by simp_all
  from shift_in_inj [OF uint_byte_bounds [of a2] uint_byte_bounds [of p2] 1(1)] 1(2)
  show "[a1, a2, a3] = [p1, p2, p3]"
    by (simp add: word_uint_eq_iff)
qed simp

lemma roll3:
  "js_add (js_shl (js_and (Some (fold_big_endian [a1, a2, a3])) 0xFFFF) 8) (Some (uint b)) =
     Some (fold_big_endian [a2, a3, b])"
proof -
  let ?m = "fold_big_endian [a1, a2, a3]"
  let ?x = "uint a2 * 256 + uint a3"
  have x: "0 \<le> ?x" "?x < 65536"
    using uint_byte_bounds [of a2] uint_byte_bounds [of a3] by auto
  have m: "0 \<le> ?m" "?m < 16777216"
    using uint_byte_bounds [of a1] uint_byte_bounds [of a2] uint_byte_bounds [of a3]
    by (auto simp: fold_big_endian3)
  have "?m = ?x + uint a1 * 65536"
    by (simp add: fold_big_endian3)
  then have "?m mod 65536 = ?x mod 65536"
    by (simp only: mod_mult_self1)
  also have "\<dots> = ?x"
    using x by (intro mod_pos_pos_trivial)
  finally have mod: "?m mod 65536 = ?x" .
  have "ToInt32 ?m = ?m"
    using m by (intro ToInt32_small) auto
  moreover have "ToInt32 65535 = 65535"
    by (intro ToInt32_small) auto
  ultimately have "js_and (Some ?m) 0xFFFF = Some ?x"
    by (simp add: js_and_def js_int32_def and_65535 mod)
  moreover have "js_add (js_shl (Some ?x) 8) (Some (uint b)) = Some (?x * 256 + uint b)"
    using x uint_byte_bounds [of b] by (intro js_byte_step)
  ultimately show ?thesis
    by (simp only: fold_big_endian3)
qed

lemma positioned_advance:
  "(positioned pre (b # bs))\<lparr>position := int (length pre) + 1\<rparr> = positioned (pre @ [b]) bs"
  by (simp add: positioned_def)

lemma readByte_positioned:
  "PullStream_readByte (positioned pre (b # bs)) = (Inr (Some (uint b)), positioned (pre @ [b]) bs)"
  using buffer_at_first4(1) [of pre b bs]
  by (simp add: PullStream_readByte_def PullStream_ensureCapacity_def positioned_def)

lemma hasMore_positioned:
  "PullStream_hasMore (positioned pre bs) None \<longleftrightarrow> bs \<noteq> []"
  by (cases bs) (simp_all add: PullStream_hasMore_def positioned_def)

lemma scan3Bytes_loop_nil:
  "scan3Bytes_loop e m (positioned pre []) = (Inr False, positioned pre [])"
  by (subst scan3Bytes_loop.simps) (simp add: hasMore_positioned)

lemma scan3Bytes_loop_step:
  "scan3Bytes_loop e m (positioned pre (b # bs)) =
     (if js_add (js_shl (js_and m 0xFFFF) 8) (Some (uint b)) = Some e
      then (Inr True, positioned (pre @ [b]) bs)
      else scan3Bytes_loop e (js_add (js_shl (js_and m 0xFFFF) 8) (Some (uint b)))
             (positioned (pre @ [b]) bs))"
  by (subst scan3Bytes_loop.simps) (simp add: hasMore_positioned readByte_positioned Let_def)

lemma scan3Bytes_loop_window:
  "length w = 3 \<Longrightarrow> length pat = 3 \<Longrightarrow>
   scan3Bytes_loop (fold_big_endian pat) (Some (fold_big_endian w)) (positioned pre bs) =
     (case scan_window pat w bs of
        None \<Rightarrow> (Inr False, positioned (pre @ bs) [])
      | Some i \<Rightarrow> (Inr True, positioned (pre @ take (Suc i) bs) (drop (Suc i) bs)))"
proof (induction bs arbitrary: w pre)
  case Nil
  then show ?case
    by (simp add: scan3Bytes_loop_nil)
next
  case (Cons b bs)
  from Cons.prems obtain a1 a2 a3 p1 p2 p3 where w: "w = [a1, a2, a3]" and pat: "pat = [p1, p2, p3]"
    by (auto simp: length_Suc_conv numeral_3_eq_3)
  have magic: "js_add (js_shl (js_and (Some (fold_big_endian w)) 0xFFFF) 8) (Some (uint b)) =
      Some (fold_big_endian (tl w @ [b]))"
    unfolding w by (simp add: roll3)
  have eq: "(fold_big_endian (tl w @ [b]) = fold_big_endian pat) = (tl w @ [b] = pat)"
    unfolding w pat by (simp add: fold3_inj)
  have len: "length (tl w @ [b]) = 3"
    using Cons.prems by simp
  have step: "scan3Bytes_loop (fold_big_endian pat) (Some (fold_big_endian w))
        (positioned pre (b # bs)) =
     (if tl w @ [b] = pat then (Inr True, positioned (pre @ [b]) bs)
      else scan3Bytes_loop (fold_big_endian pat) (Some (fold_big_endian (tl w @ [b])))
             (positioned (pre @ [b]) bs))"
    by (simp only: scan3Bytes_loop_step magic option.inject eq)
  show ?case
  proof (cases "tl w @ [b] = pat")
    case True
    then show ?thesis
      by (simp add: step)
  next
    case False
    with Cons.IH [OF len Cons.prems(2), of "pre @ [b]"] show ?thesis
      by (simp add: step split: option.splits)
  qed
qed

lemma suffix_same_length: "length xs = length ys \<Longrightarrow> suffix xs ys \<longleftrightarrow> xs = ys"
  by (auto simp: suffix_def)

lemma suffix_shift_window:
  assumes "w \<noteq> []" "length pat = length w"
  shows "suffix pat (w @ b # xs) \<longleftrightarrow> suffix pat ((tl w @ [b]) @ xs)"
proof -
  from assms(1) obtain x w0 where w: "w = x # w0"
    by (cases w) auto
  have "pat \<noteq> x # w0 @ b # xs"
  proof
    assume "pat = x # w0 @ b # xs"
    then have "length pat = length (x # w0 @ b # xs)"
      by (rule arg_cong)
    with assms(2) w show False
      by simp
  qed
  then show ?thesis
    by (simp add: w suffix_Cons)
qed

lemma suffix_first_byte:
  assumes "w \<noteq> []" "length pat = length w"
  shows "suffix pat (w @ [b]) \<longleftrightarrow> tl w @ [b] = pat"
proof -
  have "length pat = length (tl w @ [b])"
    using assms by (cases w) simp_all
  then have "suffix pat (tl w @ [b]) \<longleftrightarrow> pat = tl w @ [b]"
    by (rule suffix_same_length)
  with suffix_shift_window [OF assms, of b "[]"] show ?thesis
    by auto
qed

lemma scan_window_Some:
  "w \<noteq> [] \<Longrightarrow> length pat = length w \<Longrightarrow> scan_window pat w bs = Some i \<Longrightarrow>
   i < length bs \<and> suffix pat (w @ take (Suc i) bs) \<and>
   (\<forall>j<i. \<not> suffix pat (w @ take (Suc j) bs))"
proof (induction bs arbitrary: w i)
  case Nil
  then show ?case by simp
next
  case (Cons b bs)
  let ?w = "tl w @ [b]"
  have w': "?w \<noteq> []" "length pat = length ?w"
    using Cons.prems(1,2) by (cases w; simp)+
  have first: "suffix pat (w @ [b]) \<longleftrightarrow> ?w = pat"
    by (rule suffix_first_byte [OF Cons.prems(1,2)])
  show ?case
  proof (cases "?w = pat")
    case True
    with Cons.prems(3) have "i = 0" by simp
    with True first show ?thesis by simp
  next
    case False
    with Cons.prems(3) obtain i' where i': "scan_window pat ?w bs = Some i'" "i = Suc i'"
      by auto
    from Cons.IH [OF w' i'(1)]
    have IH: "i' < length bs" "suffix pat (?w @ take (Suc i') bs)"
      "\<forall>j<i'. \<not> suffix pat (?w @ take (Suc j) bs)"
      by simp_all
    have "\<not> suffix pat (w @ take (Suc j) (b # bs))" if "j < i" for j
    proof (cases j)
      case 0
      with False first show ?thesis by simp
    next
      case (Suc j')
      with that i'(2) IH(3) have "\<not> suffix pat (?w @ take (Suc j') bs)" by simp
      with Suc show ?thesis
        using suffix_shift_window [OF Cons.prems(1,2), of b "take (Suc j') bs"] by simp
    qed
    moreover have "suffix pat (w @ take (Suc i) (b # bs))"
      using IH(2) i'(2) suffix_shift_window [OF Cons.prems(1,2), of b "take (Suc i') bs"] by simp
    ultimately show ?thesis
      using IH(1) i'(2) by simp
  qed
qed

lemma scan_window_None:
  "w \<noteq> [] \<Longrightarrow> length pat = length w \<Longrightarrow> scan_window pat w bs = None \<Longrightarrow>
   \<forall>j<length bs. \<not> suffix pat (w @ take (Suc j) bs)"
proof (induction bs arbitrary: w)
  case Nil
  then show ?case by simp
next
  case (Cons b bs)
  let ?w = "tl w @ [b]"
  have w': "?w \<noteq> []" "length pat = length ?w"
    using Cons.prems(1,2) by (cases w; simp)+
  have first: "suffix pat (w @ [b]) \<longleftrightarrow> ?w = pat"
    by (rule suffix_first_byte [OF Cons.prems(1,2)])
  from Cons.prems(3) have ne: "?w \<noteq> pat" and r: "scan_window pat ?w bs = None"
    by (auto split: if_splits)
  show ?case
  proof (intro allI impI)
    fix j assume "j < length (b # bs)"
    show "\<not> suffix pat (w @ take (Suc j) (b # bs))"
    proof (cases j)
      case 0
      with ne first show ?thesis by simp
    next
      case (Suc j')
      with \<open>j < length (b # bs)\<close> Cons.IH [OF w' r]
      have "\<not> suffix pat (?w @ take (Suc j') bs)" by simp
      with Suc show ?thesis
        using suffix_shift_window [OF Cons.prems(1,2), of b "take (Suc j') bs"] by simp
    qed
  qed
qed

lemma suffix_after_zeros:
  assumes "pat \<noteq> []" "hd pat \<noteq> 0"
  shows "suffix pat (replicate n 0 @ ys) \<longleftrightarrow> suffix pat ys"
proof (induction n)
  case 0
  show ?case by simp
next
  case (Suc n)
  from assms have "pat \<noteq> 0 # replicate n 0 @ ys"
    by (cases pat) auto
  with Suc show ?case
    by (simp add: suffix_Cons)
qed

lemma scan_window_first:
  assumes "pat \<noteq> []" "hd pat \<noteq> 0" "\<not> sublist pat (u @ butlast pat)"
  shows "scan_window pat (replicate (length pat) 0) (u @ pat @ v) = Some (length u + length pat - 1)"
proof -
  let ?w = "replicate (length pat) (0::byte)"
  let ?bs = "u @ pat @ v"
  let ?k = "length u + length pat - 1"
  have w: "?w \<noteq> []" "length pat = length ?w"
    using assms(1) by simp_all
  have lp: "0 < length pat"
    using assms(1) by simp
  then have Suc_k: "Suc ?k = length u + length pat"
    by linarith
  have "length ?bs = length u + length pat + length v"
    by simp
  with lp have k1: "?k < length ?bs"
    by linarith
  have k2: "take (Suc ?k) ?bs = u @ pat"
    unfolding Suc_k by simp
  note k = k1 k2
  have at_k: "suffix pat (?w @ take (Suc ?k) ?bs)"
    unfolding k(2) suffix_after_zeros [OF assms(1,2)] by (simp add: suffix_def)
  have before: "\<not> suffix pat (?w @ take (Suc j) ?bs)" if "j < ?k" for j
  proof
    assume "suffix pat (?w @ take (Suc j) ?bs)"
    then have "suffix pat (take (Suc j) ?bs)"
      unfolding suffix_after_zeros [OF assms(1,2)] .
    then have "sublist pat (take (Suc j) ?bs)"
      by (rule suffix_imp_sublist)
    moreover have "prefix (take (Suc j) ?bs) (take ?k ?bs)"
      using that by (metis Suc_leI take_is_prefix take_take min.absorb1)
    moreover have "take ?k ?bs = u @ take (length pat - 1) pat"
    proof -
      have "?k = length u + (length pat - 1)"
        using lp by linarith
      then show ?thesis
        by simp
    qed
    then have "take ?k ?bs = u @ butlast pat"
      by (simp only: butlast_conv_take)
    ultimately show False
      using assms(3) by (metis prefix_imp_sublist sublist_order.order.trans)
  qed
  show ?thesis
  proof (cases "scan_window pat ?w ?bs")
    case None
    from scan_window_None [OF w None] k(1) at_k show ?thesis
      by blast
  next
    case (Some i)
    from scan_window_Some [OF w Some]
    have i: "i < length ?bs" "suffix pat (?w @ take (Suc i) ?bs)"
      "\<forall>j<i. \<not> suffix pat (?w @ take (Suc j) ?bs)"
      by simp_all
    have "\<not> i < ?k"
      using before i(2) by blast
    moreover have "\<not> ?k < i"
      using i(3) at_k by blast
    ultimately show ?thesis
      using Some by simp
  qed
qed

lemma scan_window_absent:
  assumes "pat \<noteq> []" "hd pat \<noteq> 0" "\<not> sublist pat bs"
  shows "scan_window pat (replicate (length pat) 0) bs = None"
proof (cases "scan_window pat (replicate (length pat) 0) bs")
  case None
  then show ?thesis .
next
  case (Some i)
  have "replicate (length pat) (0::byte) \<noteq> []"
    using assms(1) by simp
  from scan_window_Some [OF this _ Some]
  have "suffix pat (replicate (length pat) 0 @ take (Suc i) bs)"
    by simp
  then have "suffix pat (take (Suc i) bs)"
    unfolding suffix_after_zeros [OF assms(1,2)] .
  then have "sublist pat (take (Suc i) bs)"
    by (rule suffix_imp_sublist)
  moreover have "sublist (take (Suc i) bs) bs"
    by (intro prefix_imp_sublist take_is_prefix)
  ultimately have "sublist pat bs"
    by (rule sublist_order.order.trans)
  with assms(3) show ?thesis
    by simp
qed

lemma fold3_zeros: "fold_big_endian [0, 0, 0] = 0"
  by (simp add: fold_big_endian_def)

lemma scan3Bytes_first_match:
  assumes "x1 \<noteq> 0" "\<not> sublist [x1, x2, x3] (u @ [x1, x2])"
  shows "PullStream_scan3Bytes (positioned pre (u @ [x1, x2, x3] @ v)) (fold_big_endian [x1, x2, x3]) =
     (Inr True, positioned (pre @ u @ [x1, x2, x3]) v)"
proof -
  have "scan_window [x1, x2, x3] (replicate (length [x1, x2, x3]) 0) (u @ [x1, x2, x3] @ v) =
      Some (length u + length [x1, x2, x3] - 1)"
    using assms by (intro scan_window_first) simp_all
  then have "scan_window [x1, x2, x3] [0, 0, 0] (u @ [x1, x2, x3] @ v) = Some (length u + 2)"
    by (simp add: numeral_3_eq_3)
  with scan3Bytes_loop_window [of "[0, 0, 0]" "[x1, x2, x3]" pre "u @ [x1, x2, x3] @ v"]
  show ?thesis
    by (simp add: PullStream_scan3Bytes_def fold3_zeros)
qed

lemma scan3Bytes_no_match:
  assumes "x1 \<noteq> 0" "\<not> sublist [x1, x2, x3] bs"
  shows "PullStream_scan3Bytes (positioned pre bs) (fold_big_endian [x1, x2, x3]) =
     (Inr False, positioned (pre @ bs) [])"
proof -
  have "scan_window [x1, x2, x3] (replicate (length [x1, x2, x3]) 0) bs = None"
    using assms by (intro scan_window_absent) simp_all
  then have "scan_window [x1, x2, x3] [0, 0, 0] bs = None"
    by (simp add: numeral_3_eq_3)
  with scan3Bytes_loop_window [of "[0, 0, 0]" "[x1, x2, x3]" pre bs]
  show ?thesis
    by (simp add: PullStream_scan3Bytes_def fold3_zeros)
qed

lemma ToInt32_range: "- 2147483648 \<le> ToInt32 v" "ToInt32 v < 2147483648"
proof -
  have "0 \<le> (v + 2147483648) mod 4294967296" "(v + 2147483648) mod 4294967296 < 4294967296"
    by simp_all
  then show "- 2147483648 \<le> ToInt32 v" "ToInt32 v < 2147483648"
    unfolding ToInt32_def by linarith+
qed

lemma ToInt32_idem: "ToInt32 (ToInt32 v) = ToInt32 v"
  using ToInt32_range [of v] by (intro ToInt32_small)

lemma ToInt32_mod32: "ToInt32 v mod 4294967296 = v mod 4294967296"
proof -
  have "ToInt32 v = v + 2147483648 - 4294967296 * ((v + 2147483648) div 4294967296) - 2147483648"
    unfolding ToInt32_def by (simp add: minus_mult_div_eq_mod [symmetric])
  then have "ToInt32 v = v + 4294967296 * (- ((v + 2147483648) div 4294967296))"
    by simp
  then show ?thesis
    by (metis mod_mult_self2)
qed

lemma ToInt32_inj:
  assumes "0 \<le> x" "x < 4294967296" "0 \<le> y" "y < 4294967296" "ToInt32 x = ToInt32 y"
  shows "x = y"
proof -
  have "x mod 4294967296 = y mod 4294967296"
    using assms(5) ToInt32_mod32 [of x] ToInt32_mod32 [of y] by simp
  moreover have "x mod 4294967296 = x" "y mod 4294967296 = y"
    using assms(1-4) by (simp_all add: mod_pos_pos_trivial)
  ultimately show ?thesis by simp
qed

lemma fold4_inj:
  "ToInt32 (fold_big_endian [a1, a2, a3, a4]) = ToInt32 (fold_big_endian [p1, p2, p3, p4]) \<longleftrightarrow>
   [a1, a2, a3, a4] = [p1, p2, p3, p4]"
proof
  assume a: "ToInt32 (fold_big_endian [a1, a2, a3, a4]) = ToInt32 (fold_big_endian [p1, p2, p3, p4])"
  have e: "fold_big_endian [a1, a2, a3, a4] = fold_big_endian [p1, p2, p3, p4]"
    by (rule ToInt32_inj [OF fold4_bounds fold4_bounds a])
  have e': "((uint a1 * 256 + uint a2) * 256 + uint a3) * 256 + uint a4 =
      ((uint p1 * 256 + uint p2) * 256 + uint p3) * 256 + uint p4"
    using e by (simp only: fold_big_endian4)
  from shift_in_inj [OF uint_byte_bounds [of a4] uint_byte_bounds [of p4] e']
  have 1: "(uint a1 * 256 + uint a2) * 256 + uint a3 = (uint p1 * 256 + uint p2) * 256 + uint p3"
    and 2: "uint a4 = uint p4"
    by blast+
  from 1 have "fold_big_endian [a1, a2, a3] = fold_big_endian [p1, p2, p3]"
    by (simp only: fold_big_endian3)
  then have "[a1, a2, a3] = [p1, p2, p3]"
    by (simp only: fold3_inj)
  moreover from 2 have "a4 = p4"
    by (simp only: word_uint_eq_iff)
  ultimately show "[a1, a2, a3, a4] = [p1, p2, p3, p4]"
    by simp
next
  assume "[a1, a2, a3, a4] = [p1, p2, p3, p4]"
  then show "ToInt32 (fold_big_endian [a1, a2, a3, a4]) = ToInt32 (fold_big_endian [p1, p2, p3, p4])"
    by simp
qed

lemma roll4:
  "js_add (js_shl (js_and (Some (ToInt32 (fold_big_endian [a1, a2, a3, a4]))) 0xFFFFFF) 8)
      (Some (uint b)) =
     Some (ToInt32 (fold_big_endian [a2, a3, a4, b]))"
proof -
  let ?v = "fold_big_endian [a1, a2, a3, a4]"
  let ?x = "fold_big_endian [a2, a3, a4]"
  have x: "0 \<le> ?x" "?x < 16777216"
    using uint_byte_bounds [of a2] uint_byte_bounds [of a3] uint_byte_bounds [of a4]
    by (auto simp: fold_big_endian3)
  have "?v = ?x + uint a1 * 16777216"
    by (simp add: fold_big_endian3 fold_big_endian4)
  then have "?v mod 16777216 = ?x mod 16777216"
    by (simp only: mod_mult_self1)
  also have "\<dots> = ?x"
    using x by (intro mod_pos_pos_trivial)
  finally have mod: "ToInt32 ?v mod 16777216 = ?x"
    by (simp only: ToInt32_mod)
  have "ToInt32 16777215 = 16777215"
    by (intro ToInt32_small) auto
  then have "js_and (Some (ToInt32 ?v)) 0xFFFFFF = Some ?x"
    by (simp add: js_and_def js_int32_def ToInt32_idem and_16777215 mod)
  moreover have "js_add (js_shl (Some ?x) 8) (Some (uint b)) = Some (ToInt32 (?x * 256 + uint b))"
    using x uint_byte_bounds [of b] by (intro js_byte_step_wrap)
  moreover have "?x * 256 + uint b = fold_big_endian [a2, a3, a4, b]"
    by (simp only: fold_big_endian3 fold_big_endian4)
  ultimately show ?thesis
    by simp
qed

lemma scanLong_loop_nil:
  "scanLong_loop e m (positioned pre []) = (Inr False, positioned pre [])"
  by (subst scanLong_loop.simps) (simp add: hasMore_positioned)

lemma scanLong_loop_step:
  "scanLong_loop e m (positioned pre (b # bs)) =
     (if js_add (js_shl (js_and m 0xFFFFFF) 8) (Some (uint b)) = Some e
      then (Inr True, positioned (pre @ [b]) bs)
      else scanLong_loop e (js_add (js_shl (js_and m 0xFFFFFF) 8) (Some (uint b)))
             (positioned (pre @ [b]) bs))"
  by (subst scanLong_loop.simps) (simp add: hasMore_positioned readByte_positioned Let_def)

lemma scanLong_loop_window:
  "length w = 4 \<Longrightarrow> length pat = 4 \<Longrightarrow>
   scanLong_loop (ToInt32 (fold_big_endian pat)) (Some (ToInt32 (fold_big_endian w)))
       (positioned pre bs) =
     (case scan_window pat w bs of
        None \<Rightarrow> (Inr False, positioned (pre @ bs) [])
      | Some i \<Rightarrow> (Inr True, positioned (pre @ take (Suc i) bs) (drop (Suc i) bs)))"
proof (induction bs arbitrary: w pre)
  case Nil
  then show ?case
    by (simp add: scanLong_loop_nil)
next
  case (Cons b bs)
  from Cons.prems obtain a1 a2 a3 a4 p1 p2 p3 p4
    where w: "w = [a1, a2, a3, a4]" and pat: "pat = [p1, p2, p3, p4]"
    by (auto simp: length_Suc_conv numeral_eq_Suc)
  have magic: "js_add (js_shl (js_and (Some (ToInt32 (fold_big_endian w))) 0xFFFFFF) 8)
        (Some (uint b)) =
      Some (ToInt32 (fold_big_endian (tl w @ [b])))"
    unfolding w by (simp add: roll4)
  have eq: "(ToInt32 (fold_big_endian (tl w @ [b])) = ToInt32 (fold_big_endian pat)) =
      (tl w @ [b] = pat)"
    unfolding w pat by (simp add: fold4_inj)
  have len: "length (tl w @ [b]) = 4"
    using Cons.prems by simp
  have step: "scanLong_loop (ToInt32 (fold_big_endian pat)) (Some (ToInt32 (fold_big_endian w)))
        (positioned pre (b # bs)) =
     (if tl w @ [b] = pat then (Inr True, positioned (pre @ [b]) bs)
      else scanLong_loop (ToInt32 (fold_big_endian pat))
             (Some (ToInt32 (fold_big_endian (tl w @ [b])))) (positioned (pre @ [b]) bs))"
    by (simp only: scanLong_loop_step magic option.inject eq)
  show ?case
  proof (cases "tl w @ [b] = pat")
    case True
    then show ?thesis
      by (simp add: step)
  next
    case False
    with Cons.IH [OF len Cons.prems(2), of "pre @ [b]"] show ?thesis
      by (simp add: step split: option.splits)
  qed
qed

lemma fold4_zeros: "ToInt32 (fold_big_endian [0, 0, 0, 0]) = 0"
  by (simp add: fold_big_endian_def ToInt32_def)

lemma scanLong_first_match:
  assumes "x1 \<noteq> 0" "\<not> sublist [x1, x2, x3, x4] (u @ [x1, x2, x3])"
  shows "PullStream_scanLong (positioned pre (u @ [x1, x2, x3, x4] @ v))
           (ToInt32 (fold_big_endian [x1, x2, x3, x4])) =
     (Inr True, positioned (pre @ u @ [x1, x2, x3, x4]) v)"
proof -
  have "scan_window [x1, x2, x3, x4] (replicate (length [x1, x2, x3, x4]) 0)
        (u @ [x1, x2, x3, x4] @ v) =
      Some (length u + length [x1, x2, x3, x4] - 1)"
    using assms by (intro scan_window_first) simp_all
  then have "scan_window [x1, x2, x3, x4] [0, 0, 0, 0] (u @ [x1, x2, x3, x4] @ v) =
      Some (length u + 3)"
    by (simp add: numeral_eq_Suc)
  with scanLong_loop_window [of "[0, 0, 0, 0]" "[x1, x2, x3, x4]" pre "u @ [x1, x2, x3, x4] @ v"]
  show ?thesis
    by (simp add: PullStream_scanLong_def fold4_zeros)
qed

lemma scanLong_no_match:
  assumes "x1 \<noteq> 0" "\<not> sublist [x1, x2, x3, x4] bs"
  shows "PullStream_scanLong (positioned pre bs) (ToInt32 (fold_big_endian [x1, x2, x3, x4])) =
     (Inr False, positioned (pre @ bs) [])"
proof -
  have "scan_window [x1, x2, x3, x4] (replicate (length [x1, x2, x3, x4]) 0) bs = None"
    using assms by (intro scan_window_absent) simp_all
  then have "scan_window [x1, x2, x3, x4] [0, 0, 0, 0] bs = None"
    by (simp add: numeral_eq_Suc)
  with scanLong_loop_window [of "[0, 0, 0, 0]" "[x1, x2, x3, x4]" pre bs]
  show ?thesis
    by (simp add: PullStream_scanLong_def fold4_zeros)
qed


text \<open>
  Scanning for \<open>0xAABBAA\<close> over the bytes \<open>AA AA BB AA\<close> finds the match that
  ends at the last byte; over \<open>AA AA BB AB\<close> it finds none and stops at the end.
  \<open>scanLong\<close> compares the pattern with a signed 32-bit number: over the bytes
  \<open>80 00 00 00\<close> the pattern \<open>0x80000000\<close> is not found, and
  \<open>-2147483648\<close> is.
\<close>

lemma scan_examples:
  "PullStream_scan3Bytes (fromFile [0xAA, 0xAA, 0xBB, 0xAA]) 0xAABBAA =
     (Inr True, \<lparr>buffer = [0xAA, 0xAA, 0xBB, 0xAA], position = 4, maxPosition = 4\<rparr>)"
  "PullStream_scan3Bytes (fromFile [0xAA, 0xAA, 0xBB, 0xAB]) 0xAABBAA =
     (Inr False, \<lparr>buffer = [0xAA, 0xAA, 0xBB, 0xAB], position = 4, maxPosition = 4\<rparr>)"
  "PullStream_scanLong (fromFile [0x80, 0x00, 0x00, 0x00]) 0x80000000 =
     (Inr False, \<lparr>buffer = [0x80, 0x00, 0x00, 0x00], position = 4, maxPosition = 4\<rparr>)"
  "PullStream_scanLong (fromFile [0x80, 0x00, 0x00, 0x00]) (- 2147483648) =
     (Inr True, \<lparr>buffer = [0x80, 0x00, 0x00, 0x00], position = 4, maxPosition = 4\<rparr>)"
  by code_simp+

text \<open>
  Claim C6 at a pattern that begins with a zero byte. The rolling \<open>magic\<close> starts at 0
  and is compared after every byte, also after the first and the second, so fewer than
  three (four) bytes can match: over the bytes \<open>01 02\<close>, which nowhere hold
  \<open>00 00 01\<close>, \<open>scan3Bytes(0x000001)\<close> returns true after one byte, and so does
  \<open>scanLong(0x00000001)\<close>; over \<open>01 02 00 00 01\<close>, where the pattern starts at
  offset 2, \<open>scan3Bytes\<close> stops at position 1 and not at 5.
\<close>

theorem scan_leading_zero_false_match:
  "PullStream_scan3Bytes (fromFile [0x01, 0x02]) 0x000001 =
     (Inr True, \<lparr>buffer = [0x01, 0x02], position = 1, maxPosition = 2\<rparr>) \<and>
   PullStream_scanLong (fromFile [0x01, 0x02]) 0x00000001 =
     (Inr True, \<lparr>buffer = [0x01, 0x02], position = 1, maxPosition = 2\<rparr>) \<and>
   PullStream_scan3Bytes (fromFile [0x01, 0x02, 0x00, 0x00, 0x01]) 0x000001 =
     (Inr True, \<lparr>buffer = [0x01, 0x02, 0x00, 0x00, 0x01], position = 1, maxPosition = 5\<rparr>)"
  by code_simp

end
